theory Spec2Isabelle
  imports Main "HOL-Library.Word" "HOL-Library.Signed_Division"
begin

section \<open>The world of \<open>capture.c\<close>\<close>

text \<open>
  \<open>capture.c\<close> is a single-threaded V4L2 capture program.  Its file-scope variables
  become the fields of the record \<open>world\<close>; the file system it writes to and the
  diagnostics it prints on the error stream are fields of the same record.  Output on the
  standard output stream (\<open>printf\<close>) is not modelled.

  Every system call returns what the environment decides.  The return values are given to
  the model as a script, in call order; a function that needs a return value when the script
  has none left yields \<open>Blocked\<close>: the process is still inside that call or loop.
\<close>

type_synonym byte = "8 word"
type_synonym u32 = "32 word"

text \<open>The error codes the program tests by name; \<open>Errno n\<close> is any other code.\<close>

datatype errno = EINTR | EAGAIN | EIO | EINVAL | Errno nat

text \<open>What a system call hands back: its return value and \<open>errno\<close> after the call.\<close>

type_synonym ret = "int \<times> errno"

datatype pixfmt = V4L2_PIX_FMT_YUYV | V4L2_PIX_FMT_RGB24 | V4L2_PIX_FMT_OTHER u32

text \<open>
  A line on the error stream: \<open>errno_exit s\<close> prints \<open>s\<close> with the error code and its text,
  \<open>perror s\<close> prints \<open>s\<close> with the text, \<open>fprintf(stderr, ...)\<close> prints a message.
\<close>

datatype diag = Errno_exit string errno | Perror string errno | Message string

text \<open>
  The calls whose arguments the claims speak of are logged: \<open>select\<close> with its timeout
  (\<open>tv_sec\<close>, \<open>tv_usec\<close>) and \<open>ioctl(VIDIOC_REQBUFS)\<close> with the count it asks for.
\<close>

datatype call = Call_select nat nat | Call_reqbufs u32

text \<open>
  \<open>buffers\<close> holds \<open>start\<close> and \<open>length\<close> of every \<open>struct buffer\<close>; an address is an
  \<open>int\<close>, and \<open>MAP_FAILED\<close> is \<open>(void *) -1\<close>.
\<close>

record world =
  dev_name :: string
  pixelformat :: pixfmt
  n_buffers :: u32
  buffers :: "(int \<times> nat) list"
  framecnt :: u32
  bigbuffer :: "nat \<Rightarrow> byte"
  ppm_dumpname :: "char list"
  files :: "string \<Rightarrow> byte list option"
  stderr :: "diag list"
  calls :: "call list"

text \<open>
  How a function of the program ends: it returns, the process exits with a status
  (\<open>exit\<close>), an \<open>assert\<close> fails (\<open>abort\<close>), an access leaves the object it indexes
  (undefined behaviour), or the script ran out.
\<close>

datatype 'a outcome = Return 'a | Exit nat world | Abort world | Undefined | Blocked

fun obind :: "'a outcome \<Rightarrow> ('a \<Rightarrow> 'b outcome) \<Rightarrow> 'b outcome" where
  "obind (Return a) f = f a"
| "obind (Exit s w) f = Exit s w"
| "obind (Abort w) f = Abort w"
| "obind Undefined f = Undefined"
| "obind Blocked f = Blocked"

definition EXIT_FAILURE :: nat where
  "EXIT_FAILURE = 1"

definition errno_exit :: "string \<Rightarrow> errno \<Rightarrow> world \<Rightarrow> 'a outcome" where
  "errno_exit s e w = Exit EXIT_FAILURE (w\<lparr>stderr := stderr w @ [Errno_exit s e]\<rparr>)"

text \<open>
  \<open>xioctl\<close> repeats \<open>ioctl\<close> while it fails with \<open>EINTR\<close>.  Its argument is the script of
  the successive \<open>ioctl\<close> returns.
\<close>

fun xioctl :: "ret list \<Rightarrow> ret option" where
  "xioctl [] = None"
| "xioctl ((r, e) # rets) = (if r = -1 \<and> e = EINTR then xioctl rets else Some (r, e))"

section \<open>Buffer pool: \<open>init_mmap\<close>\<close>

definition MAP_FAILED :: int where
  "MAP_FAILED = -1"

text \<open>
  What the environment does for one buffer of the pool: the returns of
  \<open>ioctl(VIDIOC_QUERYBUF)\<close>, the length the driver reports, and what \<open>mmap\<close> returns.
\<close>

record buffer_script =
  querybuf_rets :: "ret list"
  buf_length :: u32
  mmap_ret :: ret

text \<open>
  What the environment does during \<open>init_mmap\<close>: the returns of \<open>ioctl(VIDIOC_REQBUFS)\<close>,
  the count the driver leaves in \<open>req.count\<close>, whether \<open>calloc\<close> finds memory, and the
  script of every buffer.
\<close>

record init_script =
  reqbufs_rets :: "ret list"
  granted :: u32
  calloc_ok :: bool
  per_buffer :: "buffer_script list"

text \<open>The loop \<open>for (n_buffers = 0; n_buffers < req.count; ++n_buffers)\<close>.\<close>

fun init_mmap_loop :: "u32 \<Rightarrow> buffer_script list \<Rightarrow> world \<Rightarrow> world outcome" where
  "init_mmap_loop count [] w = (if n_buffers w < count then Blocked else Return w)"
| "init_mmap_loop count (b # bs) w =
     (if n_buffers w < count then
        (case xioctl (querybuf_rets b) of
           None \<Rightarrow> Blocked
         | Some (r, e) \<Rightarrow>
             if r = -1 then errno_exit ''VIDIOC_QUERYBUF'' e w
             else
               (let n = unat (n_buffers w);
                    w = w\<lparr>buffers := (buffers w)[n := (fst (buffers w ! n), unat (buf_length b))]\<rparr>;
                    w = w\<lparr>buffers := (buffers w)[n := (fst (mmap_ret b), snd (buffers w ! n))]\<rparr>
                in if MAP_FAILED = fst (buffers w ! n) then errno_exit ''mmap'' (snd (mmap_ret b)) w
                   else init_mmap_loop count bs (w\<lparr>n_buffers := n_buffers w + 1\<rparr>)))
      else Return w)"

definition init_mmap :: "init_script \<Rightarrow> world \<Rightarrow> world outcome" where
  "init_mmap sc w =
     (let w = w\<lparr>calls := calls w @ [Call_reqbufs 6]\<rparr>
      in case xioctl (reqbufs_rets sc) of
           None \<Rightarrow> Blocked
         | Some (r, e) \<Rightarrow>
             if r = -1 then
               (if EINVAL = e then
                  Exit EXIT_FAILURE
                    (w\<lparr>stderr := stderr w @ [Message (dev_name w @ '' does not support memory mapping'')]\<rparr>)
                else errno_exit ''VIDIOC_REQBUFS'' e w)
             else if granted sc < 2 then
               Exit EXIT_FAILURE
                 (w\<lparr>stderr := stderr w @ [Message (''Insufficient buffer memory on '' @ dev_name w)]\<rparr>)
             else if \<not> calloc_ok sc then
               Exit EXIT_FAILURE (w\<lparr>stderr := stderr w @ [Message ''Out of memory'']\<rparr>)
             else
               init_mmap_loop (granted sc) (per_buffer sc)
                 (w\<lparr>buffers := replicate (unat (granted sc)) (0, 0), n_buffers := 0\<rparr>))"

section \<open>Pixel pipeline: \<open>yuv2rgb\<close> and the conversion loop of \<open>process_image\<close>\<close>

text \<open>
  The arithmetic of \<open>yuv2rgb\<close> is on C \<open>int\<close> values that come from \<open>unsigned char\<close>
  samples; it is modelled on \<open>int\<close>.  For samples in \<open>0..255\<close> every intermediate value is
  below \<open>2^18\<close> in magnitude (lemma \<open>yuv2rgb_fits_int32\<close>), so nothing wraps in 32 bits.
  The C expression \<open>x >> 8\<close> on a negative \<open>int\<close> is an arithmetic shift with the compilers
  the program is built with; on \<open>int\<close> that is \<open>drop_bit 8\<close>, division by 256 rounding down
  (a shift that truncated would clip to the same bytes, lemma \<open>clamp8_shift_rounding\<close>).
\<close>

text \<open>The three clipped values \<open>r1\<close>, \<open>g1\<close>, \<open>b1\<close> of \<open>yuv2rgb\<close>, before they are stored.\<close>

definition yuv2rgb_clipped :: "int \<Rightarrow> int \<Rightarrow> int \<Rightarrow> int \<times> int \<times> int" where
  "yuv2rgb_clipped y u v =
     (let c = y - 16; d = u - 128; e = v - 128;
          r1 = drop_bit 8 (298 * c + 409 * e + 128);
          g1 = drop_bit 8 (298 * c - 100 * d - 208 * e + 128);
          b1 = drop_bit 8 (298 * c + 516 * d + 128);
          r1 = (if r1 > 255 then 255 else r1);
          g1 = (if g1 > 255 then 255 else g1);
          b1 = (if b1 > 255 then 255 else b1);
          r1 = (if r1 < 0 then 0 else r1);
          g1 = (if g1 < 0 then 0 else g1);
          b1 = (if b1 < 0 then 0 else b1)
      in (r1, g1, b1))"

text \<open>
  \<open>*r = r1; *g = g1; *b = b1\<close>: the stores narrow an \<open>int\<close> to \<open>unsigned char\<close>
  (reduction modulo 256, \<open>word_of_int\<close>).
\<close>

definition yuv2rgb :: "int \<Rightarrow> int \<Rightarrow> int \<Rightarrow> byte \<times> byte \<times> byte" where
  "yuv2rgb y u v =
     (case yuv2rgb_clipped y u v of (r1, g1, b1) \<Rightarrow>
        (word_of_int r1, word_of_int g1, word_of_int b1))"

text \<open>\<open>unsigned char bigbuffer[(1280*960)]\<close>: a store from index to byte, with its bound.\<close>

definition BIGBUFFER_SIZE :: nat where
  "BIGBUFFER_SIZE = 1280 * 960"

text \<open>
  The \<open>for\<close> loop of \<open>process_image\<close> over \<open>i\<close> and \<open>newi\<close>.  \<open>pptr\<close> is the mapped
  capture buffer, \<open>sz\<close> the parameter \<open>size\<close>.  The loop reads \<open>pptr[i..i+3]\<close> and writes
  \<open>bigbuffer[newi..newi+5]\<close>; an index outside the mapping or outside \<open>bigbuffer\<close> is
  undefined behaviour (\<open>None\<close>).
\<close>

function yuyv_loop ::
  "byte list \<Rightarrow> int \<Rightarrow> nat \<Rightarrow> nat \<Rightarrow> (nat \<Rightarrow> byte) \<Rightarrow> (nat \<Rightarrow> byte) option" where
  "yuyv_loop pptr sz i newi bb =
     (if int i < sz then
        (if i + 3 < length pptr \<and> newi + 5 < BIGBUFFER_SIZE then
           (let y_temp = uint (pptr ! i); u_temp = uint (pptr ! (i + 1));
                y2_temp = uint (pptr ! (i + 2)); v_temp = uint (pptr ! (i + 3))
            in case yuv2rgb y_temp u_temp v_temp of (r, g, b) \<Rightarrow>
               case yuv2rgb y2_temp u_temp v_temp of (r2, g2, b2) \<Rightarrow>
                 yuyv_loop pptr sz (i + 4) (newi + 6)
                   (bb(newi := r, newi + 1 := g, newi + 2 := b,
                       newi + 3 := r2, newi + 4 := g2, newi + 5 := b2)))
         else None)
      else Some bb)"
  by pat_completeness auto
termination
  by (relation "measure (\<lambda>(pptr, sz, i, newi, bb). nat (sz - int i))") auto

declare yuyv_loop.simps [simp del]

text \<open>
  The bytes a call \<open>write(dumpfd, p, size)\<close> is asked to write: the first \<open>size\<close> bytes
  at \<open>p\<close>.  \<open>p\<close> is given as the bytes found at that address.
\<close>

definition payload :: "byte list \<Rightarrow> int \<Rightarrow> byte list" where
  "payload p sz = take (nat sz) p"

section \<open>Artifact emission: \<open>dump_ppm\<close>\<close>

definition HRES_STR :: string where
  "HRES_STR = ''320''"

definition VRES_STR :: string where
  "VRES_STR = ''240''"

definition ppm_header :: string where
  "ppm_header =
     ''P6\<newline>#9999999999 sec 9999999999 msec \<newline>'' @ HRES_STR @ '' '' @ VRES_STR @ ''\<newline>255\<newline>''"

text \<open>
  \<open>char ppm_dumpname[] = "frames/test00000000.ppm"\<close>: 23 characters and the terminating
  null character.
\<close>

definition NUL :: char where
  "NUL = CHR 0x00"

definition ppm_dumpname_init :: "char list" where
  "ppm_dumpname_init = ''frames/test00000000.ppm'' @ [NUL]"

text \<open>The C string held in a character array: the characters before the first null.\<close>

definition c_str :: "char list \<Rightarrow> string" where
  "c_str buf = takeWhile (\<lambda>c. c \<noteq> NUL) buf"

text \<open>Overwriting an array from offset \<open>off\<close> with the characters \<open>xs\<close>.\<close>

definition store :: "'a list \<Rightarrow> nat \<Rightarrow> 'a list \<Rightarrow> 'a list" where
  "store buf off xs = take off buf @ xs @ drop (off + length xs) buf"

definition digit :: "nat \<Rightarrow> char" where
  "digit d = ''0123456789'' ! d"

fun dec :: "nat \<Rightarrow> string" where
  "dec n = (if n < 10 then [digit n] else dec (n div 10) @ [digit (n mod 10)])"

declare dec.simps [simp del]

text \<open>The conversion \<open>%08d\<close> of \<open>printf\<close>: decimal, padded with zeros to eight characters.\<close>

definition fmt_08d :: "int \<Rightarrow> string" where
  "fmt_08d x =
     (if x < 0 then
        (let s = dec (nat (- x)) in CHR ''-'' # replicate (7 - length s) CHR ''0'' @ s)
      else (let s = dec (nat x) in replicate (8 - length s) CHR ''0'' @ s))"

text \<open>
  \<open>snprintf(&buf[off], n, "%08d", x)\<close> writes at most \<open>n - 1\<close> characters and a null;
  \<open>strncat(&buf[off], src, n)\<close> appends at most \<open>n\<close> characters of \<open>src\<close> and a null to
  the string that starts at \<open>buf[off]\<close>.
\<close>

definition snprintf_08d :: "char list \<Rightarrow> nat \<Rightarrow> nat \<Rightarrow> int \<Rightarrow> char list" where
  "snprintf_08d buf off n x =
     (if n = 0 then buf else store buf off (take (n - 1) (fmt_08d x) @ [NUL]))"

definition strncat :: "char list \<Rightarrow> nat \<Rightarrow> string \<Rightarrow> nat \<Rightarrow> char list" where
  "strncat buf off src n =
     store buf (off + length (c_str (drop off buf))) (take n src @ [NUL])"

text \<open>The two statements of \<open>dump_ppm\<close> that build the file name from \<open>tag\<close>.\<close>

definition dump_name :: "char list \<Rightarrow> u32 \<Rightarrow> char list" where
  "dump_name buf tag = strncat (snprintf_08d buf 4 9 (sint tag)) 12 ''.ppm'' 5"

text \<open>
  \<open>open(path, O_WRONLY | O_NONBLOCK | O_CREAT, 00666)\<close>: when it succeeds the file
  exists afterwards, with its old contents if it had any (there is no \<open>O_TRUNC\<close>), and
  the descriptor's offset is 0.
\<close>

definition sys_open_creat :: "string \<Rightarrow> int \<Rightarrow> world \<Rightarrow> world" where
  "sys_open_creat path fd w =
     (if fd = -1 then w
      else case files w path of
             None \<Rightarrow> w\<lparr>files := (files w)(path \<mapsto> [])\<rparr>
           | Some old \<Rightarrow> w)"

text \<open>
  \<open>write(fd, buf, count)\<close> that returned \<open>r\<close>: for \<open>r > 0\<close> the first \<open>r\<close> bytes of
  \<open>buf\<close> replace the file's bytes at the descriptor's offset \<open>off\<close>, and the offset
  advances.  The descriptor is only ever written in sequence, so \<open>off\<close> never passes the
  end of the file.
\<close>

definition sys_write ::
  "int \<Rightarrow> string \<Rightarrow> nat \<Rightarrow> byte list \<Rightarrow> int \<Rightarrow> int \<Rightarrow> world \<Rightarrow> nat \<times> world" where
  "sys_write fd path off buf count r w =
     (if fd = -1 \<or> r \<le> 0 then (off, w)
      else (let data = take (nat r) (payload buf count);
                old = (case files w path of None \<Rightarrow> [] | Some c \<Rightarrow> c)
            in (off + length data,
                w\<lparr>files := (files w)(path \<mapsto> store old off data)\<rparr>)))"

text \<open>
  \<open>size\<close>, \<open>written\<close> and \<open>total\<close> are \<open>int\<close>s of 32 bits.  \<open>c_int x\<close> is the
  value such a variable holds when \<open>x\<close> is stored in it: \<open>x\<close> itself inside the range
  of \<open>int\<close>, and \<open>x\<close> wrapped around modulo \<open>2^32\<close> outside of it, as the sum
  \<open>total += written\<close> does on the two's-complement machines the program is built for.
\<close>

definition c_int :: "int \<Rightarrow> int" where
  "c_int x = sint (word_of_int x :: 32 word)"

text \<open>
  The \<open>do ... while (total < size)\<close> loop of \<open>dump_ppm\<close>: every turn calls
  \<open>write(dumpfd, p, size)\<close> again, from the start of \<open>p\<close>, and adds what it returned to
  \<open>total\<close> (here \<open>total'\<close>).
\<close>

fun write_loop ::
  "int \<Rightarrow> string \<Rightarrow> byte list \<Rightarrow> int \<Rightarrow> int list \<Rightarrow> int \<Rightarrow> nat \<Rightarrow> world \<Rightarrow> (int \<times> world) outcome" where
  "write_loop dumpfd path p sz [] total' off w = Blocked"
| "write_loop dumpfd path p sz (written # rets) total' off w =
     (case sys_write dumpfd path off p sz written w of
        (off', w') \<Rightarrow>
          if c_int (total' + c_int written) < c_int sz
          then write_loop dumpfd path p sz rets (c_int (total' + c_int written)) off' w'
          else Return (c_int (total' + c_int written), w'))"

text \<open>
  \<open>dump_ppm(p, size, tag, time)\<close>.  \<open>open_ret\<close> is what \<open>open\<close> returns, \<open>write_rets\<close>
  what the successive calls of \<open>write\<close> return, the header's first.  Neither the result of
  \<open>open\<close> nor that of the header's \<open>write\<close> is looked at.
\<close>

definition dump_ppm :: "byte list \<Rightarrow> int \<Rightarrow> u32 \<Rightarrow> int \<Rightarrow> int list \<Rightarrow> world \<Rightarrow> world outcome" where
  "dump_ppm p sz tag open_ret write_rets w =
     (let w = w\<lparr>ppm_dumpname := dump_name (ppm_dumpname w) tag\<rparr>;
          path = c_str (ppm_dumpname w);
          dumpfd = open_ret;
          w = sys_open_creat path dumpfd w
      in case write_rets of
           [] \<Rightarrow> Blocked
         | written # rets \<Rightarrow>
             (case sys_write dumpfd path 0 (map of_char ppm_header) (int (length ppm_header)) written w of
                (off, w) \<Rightarrow>
                  obind (write_loop dumpfd path p sz rets 0 off w) (\<lambda>(total', w). Return w)))"

section \<open>Frame processing: \<open>process_image\<close> and \<open>read_frame\<close>\<close>

text \<open>
  \<open>process_image(p, size)\<close> with \<open>COLOR_CONVERT\<close> defined.  \<open>(size*6)/4\<close> is C's
  division, which truncates (\<open>sdiv\<close>).  \<open>dump_ppm\<close> is handed \<open>bigbuffer\<close> as its first
  \<open>(size*6)/4\<close> bytes, all that \<open>write\<close> can be asked for; they lie inside \<open>bigbuffer\<close>
  whenever the conversion loop stayed inside it.
\<close>

definition process_image :: "byte list \<Rightarrow> int \<Rightarrow> int \<Rightarrow> int list \<Rightarrow> world \<Rightarrow> world outcome" where
  "process_image p sz open_ret write_rets w =
     (let w = w\<lparr>framecnt := framecnt w + 1\<rparr>
      in if pixelformat w = V4L2_PIX_FMT_YUYV then
           (case yuyv_loop p sz 0 0 (bigbuffer w) of
              None \<Rightarrow> Undefined
            | Some bb \<Rightarrow>
                dump_ppm (map bb [0..<nat ((sz * 6) sdiv 4)]) ((sz * 6) sdiv 4) (framecnt w)
                  open_ret write_rets (w\<lparr>bigbuffer := bb\<rparr>))
         else if pixelformat w = V4L2_PIX_FMT_RGB24 then
           dump_ppm p sz (framecnt w) open_ret write_rets w
         else Return w)"

text \<open>
  What the environment does during one turn of the inner \<open>for (;;)\<close> loop of \<open>mainloop\<close>:
  the return of \<open>select\<close>; the returns of \<open>ioctl(VIDIOC_DQBUF)\<close> and, when it succeeds,
  the index and \<open>bytesused\<close> the driver reports and the contents of that mapped buffer; the
  returns of \<open>open\<close> and \<open>write\<close> in \<open>dump_ppm\<close>; the returns of \<open>ioctl(VIDIOC_QBUF)\<close>; the
  return of \<open>nanosleep\<close>.  A turn uses the fields of the calls it makes.
\<close>

record iteration =
  select_ret :: ret
  dqbuf_rets :: "ret list"
  dq_index :: u32
  dq_bytesused :: u32
  dq_mem :: "byte list"
  open_ret :: int
  write_rets :: "int list"
  qbuf_rets :: "ret list"
  nanosleep_ret :: ret

definition read_frame :: "iteration \<Rightarrow> world \<Rightarrow> (int \<times> world) outcome" where
  "read_frame it w =
     (case xioctl (dqbuf_rets it) of
        None \<Rightarrow> Blocked
      | Some (r, e) \<Rightarrow>
          if r = -1 then
            (case e of
               EAGAIN \<Rightarrow> Return (0, w)
             | EIO \<Rightarrow> Return (0, w)
             | _ \<Rightarrow> errno_exit ''VIDIOC_DQBUF'' e w)
          else if \<not> dq_index it < n_buffers w then Abort w
          else
            obind (process_image (dq_mem it) (sint (dq_bytesused it)) (open_ret it) (write_rets it) w)
              (\<lambda>w. case xioctl (qbuf_rets it) of
                      None \<Rightarrow> Blocked
                    | Some (r, e) \<Rightarrow>
                        if r = -1 then errno_exit ''VIDIOC_QBUF'' e w else Return (1, w)))"

section \<open>Acquisition loop: \<open>mainloop\<close>\<close>

definition frame_count :: int where
  "frame_count = 30"

text \<open>
  The inner \<open>for (;;)\<close> loop, one script entry per turn.  It ends by \<open>break\<close> with the
  value of \<open>count\<close>; every call of \<open>select\<close> is logged with the timeout it was given
  (\<open>tv_sec = 2\<close>, \<open>tv_usec = 0\<close>).
\<close>

fun mainloop_for :: "u32 \<Rightarrow> iteration list \<Rightarrow> world \<Rightarrow> (u32 \<times> iteration list \<times> world) outcome" where
  "mainloop_for count [] w = Blocked"
| "mainloop_for count (it # its) w =
     (let w = w\<lparr>calls := calls w @ [Call_select 2 0]\<rparr>
      in if fst (select_ret it) = -1 then
           (if snd (select_ret it) = EINTR then mainloop_for count its w
            else errno_exit ''select'' (snd (select_ret it)) w)
         else if fst (select_ret it) = 0 then
           Exit EXIT_FAILURE (w\<lparr>stderr := stderr w @ [Message ''select timeout'']\<rparr>)
         else
           (case read_frame it w of
              Return (rf, w) \<Rightarrow>
                if rf \<noteq> 0 then
                  (let w = (if fst (nanosleep_ret it) \<noteq> 0
                            then w\<lparr>stderr := stderr w @ [Perror ''nanosleep'' (snd (nanosleep_ret it))]\<rparr>
                            else w)
                   in Return (count - 1, its, w))
                else if count \<le> 0 then Return (count, its, w)
                else mainloop_for count its w
            | Exit s w \<Rightarrow> Exit s w
            | Abort w \<Rightarrow> Abort w
            | Undefined \<Rightarrow> Undefined
            | Blocked \<Rightarrow> Blocked))"

lemma mainloop_for_consumes:
  "mainloop_for count its w = Return (count', its', w') \<Longrightarrow> length its' < length its"
proof (induction its arbitrary: w)
  case Nil
  then show ?case by simp
next
  case (Cons it its)
  then show ?case
    by (fastforce simp: Let_def errno_exit_def split: if_splits outcome.splits prod.splits)
qed

text \<open>The outer \<open>while (count > 0)\<close> loop.\<close>

function mainloop_while :: "u32 \<Rightarrow> iteration list \<Rightarrow> world \<Rightarrow> (iteration list \<times> world) outcome" where
  "mainloop_while count its w =
     (if count > 0 then
        (case mainloop_for count its w of
           Return (count', its', w') \<Rightarrow>
             if count' \<le> 0 then Return (its', w') else mainloop_while count' its' w'
         | Exit s w' \<Rightarrow> Exit s w'
         | Abort w' \<Rightarrow> Abort w'
         | Undefined \<Rightarrow> Undefined
         | Blocked \<Rightarrow> Blocked)
      else Return (its, w))"
  by pat_completeness auto
termination
  by (relation "measure (\<lambda>(count, its, w). length its)") (auto dest: mainloop_for_consumes)

declare mainloop_while.simps [simp del]

definition mainloop :: "iteration list \<Rightarrow> world \<Rightarrow> (iteration list \<times> world) outcome" where
  "mainloop its w = mainloop_while (word_of_int frame_count) its w"

section \<open>The conversion as the specification words it\<close>

text \<open>
  The specification's transform, written from its text: \<open>clamp8\<close> saturates to
  \<open>[0,255]\<close>; a group of four bytes (luma0, chromaU, luma1, chromaV) gives two RGB triples
  that share the chroma pair.
\<close>

definition clamp8 :: "int \<Rightarrow> int" where
  "clamp8 x = max 0 (min 255 x)"

definition spec_rgb :: "int \<Rightarrow> int \<Rightarrow> int \<Rightarrow> int list" where
  "spec_rgb luma chromaU chromaV =
     (let c = luma - 16; d = chromaU - 128; e = chromaV - 128
      in [clamp8 ((298 * c + 409 * e + 128) div 2 ^ 8),
          clamp8 ((298 * c - 100 * d - 208 * e + 128) div 2 ^ 8),
          clamp8 ((298 * c + 516 * d + 128) div 2 ^ 8)])"

fun spec_convert :: "int list \<Rightarrow> int list" where
  "spec_convert (luma0 # chromaU # luma1 # chromaV # rest) =
     spec_rgb luma0 chromaU chromaV @ spec_rgb luma1 chromaU chromaV @ spec_convert rest"
| "spec_convert _ = []"

text \<open>
  When the retry loop of \<open>dump_ppm\<close> is left: some non-empty run of \<open>write\<close> returns,
  from the first on, adds up, in an \<open>int\<close>, to the payload size or more.
\<close>

definition reaches :: "int \<Rightarrow> int list \<Rightarrow> bool" where
  "reaches sz rets = (\<exists>k \<in> {1..length rets}. c_int sz \<le> c_int (sum_list (take k rets)))"

text \<open>
  The artifact as the specification words it: the header with a comment field of 64
  characters and the frame's width and height in decimal, then \<open>width*height*3\<close> bytes.
\<close>

definition claimed_artifact :: "nat \<Rightarrow> nat \<Rightarrow> byte list \<Rightarrow> bool" where
  "claimed_artifact width height content =
     (\<exists>comment rgb. length comment = 64 \<and> length rgb = width * height * 3 \<and>
        content = map of_char (''P6\<newline>#'' @ comment @ ''\<newline>'' @ dec width @ '' '' @ dec height @ ''\<newline>255\<newline>'') @ rgb)"

section \<open>The turns of the acquisition loop, by kind\<close>

text \<open>
  A turn of the inner loop is interrupted when \<open>select\<close> fails with \<open>EINTR\<close>; it is a
  not-ready turn when \<open>select\<close> reports a ready descriptor and the dequeue ends with
  \<open>EAGAIN\<close> or \<open>EIO\<close>; it is a frame turn when \<open>select\<close> reports a ready descriptor,
  the dequeue succeeds with a buffer index below \<open>n_buffers\<close>, the frame is one that
  \<open>process_image\<close> can process and write out, and the buffer is queued again.
\<close>

definition select_ready :: "iteration \<Rightarrow> bool" where
  "select_ready it \<longleftrightarrow> fst (select_ret it) \<noteq> -1 \<and> fst (select_ret it) \<noteq> 0"

definition interrupted :: "iteration \<Rightarrow> bool" where
  "interrupted it \<longleftrightarrow> select_ret it = (-1, EINTR)"

definition not_ready :: "iteration \<Rightarrow> bool" where
  "not_ready it \<longleftrightarrow>
     select_ready it \<and>
     (xioctl (dqbuf_rets it) = Some (-1, EAGAIN) \<or> xioctl (dqbuf_rets it) = Some (-1, EIO))"

definition ioctl_ok :: "ret list \<Rightarrow> bool" where
  "ioctl_ok rets = (case xioctl rets of None \<Rightarrow> False | Some (r, e) \<Rightarrow> r \<noteq> -1)"

definition dump_ok :: "int \<Rightarrow> int list \<Rightarrow> bool" where
  "dump_ok sz wrs \<longleftrightarrow> wrs \<noteq> [] \<and> reaches sz (tl wrs)"

definition image_ok :: "pixfmt \<Rightarrow> iteration \<Rightarrow> bool" where
  "image_ok fmt it =
     (let sz = sint (dq_bytesused it)
      in if fmt = V4L2_PIX_FMT_YUYV then
           0 \<le> sz \<and> 4 dvd sz \<and> nat sz \<le> length (dq_mem it) \<and>
           nat ((sz * 6) sdiv 4) \<le> BIGBUFFER_SIZE \<and> dump_ok ((sz * 6) sdiv 4) (write_rets it)
         else if fmt = V4L2_PIX_FMT_RGB24 then dump_ok sz (write_rets it)
         else True)"

definition frame_ready :: "u32 \<Rightarrow> pixfmt \<Rightarrow> iteration \<Rightarrow> bool" where
  "frame_ready n fmt it \<longleftrightarrow>
     select_ready it \<and> ioctl_ok (dqbuf_rets it) \<and> dq_index it < n \<and> image_ok fmt it \<and>
     ioctl_ok (qbuf_rets it)"

text \<open>A world and a frame to run the model on.\<close>

definition example_world :: world where
  "example_world =
     \<lparr>dev_name = ''/dev/video0'', pixelformat = V4L2_PIX_FMT_YUYV, n_buffers = 6, buffers = [],
      framecnt = 0, bigbuffer = (\<lambda>_. 0), ppm_dumpname = ppm_dumpname_init, files = Map.empty,
      stderr = [], calls = []\<rparr>"

text \<open>Scripts to run the model on: turns of the loop, and an initialisation.\<close>

definition example_frame :: iteration where
  "example_frame =
     \<lparr>select_ret = (1, EINTR), dqbuf_rets = [(-1, EINTR), (0, EINTR)], dq_index = 2,
      dq_bytesused = 4, dq_mem = [16, 128, 235, 128], open_ret = 3, write_rets = [48, 6],
      qbuf_rets = [(0, EINTR)], nanosleep_ret = (0, EINTR)\<rparr>"

definition example_again :: iteration where
  "example_again = example_frame\<lparr>dqbuf_rets := [(-1, EAGAIN)]\<rparr>"

definition example_interrupt :: iteration where
  "example_interrupt = example_frame\<lparr>select_ret := (-1, EINTR)\<rparr>"

definition example_buffer :: buffer_script where
  "example_buffer = \<lparr>querybuf_rets = [(0, EINTR)], buf_length = 153600, mmap_ret = (4096, EINTR)\<rparr>"

definition example_init :: init_script where
  "example_init =
     \<lparr>reqbufs_rets = [(-1, EINTR), (0, EINTR)], granted = 6, calloc_ok = True,
      per_buffer = [example_buffer, example_buffer\<lparr>mmap_ret := (-1, Errno 12)\<rparr>, example_buffer]\<rparr>"

section \<open>Lemmas on the pixel pipeline\<close>

text \<open>For byte samples the three sums of \<open>yuv2rgb\<close> stay far inside 32 bits.\<close>

lemma yuv2rgb_fits_int32:
  fixes y u v :: int
  assumes "0 \<le> y" "y \<le> 255" "0 \<le> u" "u \<le> 255" "0 \<le> v" "v \<le> 255"
  shows "\<bar>298 * (y - 16) + 409 * (v - 128) + 128\<bar> < 2 ^ 18"
    and "\<bar>298 * (y - 16) - 100 * (u - 128) - 208 * (v - 128) + 128\<bar> < 2 ^ 18"
    and "\<bar>298 * (y - 16) + 516 * (u - 128) + 128\<bar> < 2 ^ 18"
  using assms by (simp_all add: abs_less_iff)

lemma clip_eq_clamp8:
  "(if (if x > 255 then 255 else x) < 0 then 0 else (if x > 255 then 255 else x)) = clamp8 x"
  by (simp add: clamp8_def max_def min_def)

lemma clamp8_range: "0 \<le> clamp8 x \<and> clamp8 x \<le> 255"
  by (simp add: clamp8_def)

text \<open>
  The clipped value does not depend on how \<open>>> 8\<close> rounds a negative sum: rounding down
  and truncating both give a value that clips to 0.
\<close>

lemma clamp8_shift_rounding: "clamp8 (drop_bit 8 x) = clamp8 (x sdiv 2 ^ 8)"
proof (cases "0 \<le> x")
  case True
  then show ?thesis
    by (simp add: drop_bit_eq_div signed_divide_int_def sgn_if)
next
  case False
  then have "x div 256 < 0" by simp
  moreover from False have "x sdiv 256 \<le> 0"
    by (simp add: signed_divide_int_def sgn_if)
  ultimately show ?thesis
    by (simp add: clamp8_def drop_bit_eq_div)
qed

lemma yuv2rgb_clipped_clamp8:
  "yuv2rgb_clipped y u v =
     (clamp8 (drop_bit 8 (298 * (y - 16) + 409 * (v - 128) + 128)),
      clamp8 (drop_bit 8 (298 * (y - 16) - 100 * (u - 128) - 208 * (v - 128) + 128)),
      clamp8 (drop_bit 8 (298 * (y - 16) + 516 * (u - 128) + 128)))"
  unfolding yuv2rgb_clipped_def Let_def clip_eq_clamp8 by (rule refl)

lemma spec_rgb_clipped:
  "spec_rgb y u v = (case yuv2rgb_clipped y u v of (r1, g1, b1) \<Rightarrow> [r1, g1, b1])"
  unfolding yuv2rgb_clipped_clamp8 spec_rgb_def Let_def drop_bit_eq_div prod.case by (rule refl)

lemma uint_clamp8: "uint (word_of_int (clamp8 x) :: byte) = clamp8 x"
  using clamp8_range [of x] by (simp add: uint_word_of_int)

lemma yuv2rgb_uint:
  "(case yuv2rgb y u v of (r, g, b) \<Rightarrow> (uint r, uint g, uint b)) = yuv2rgb_clipped y u v"
  unfolding yuv2rgb_def yuv2rgb_clipped_clamp8 prod.case uint_clamp8 by (rule refl)

lemma yuv2rgb_spec:
  "(case yuv2rgb y u v of (r, g, b) \<Rightarrow> [uint r, uint g, uint b]) = spec_rgb y u v"
  unfolding spec_rgb_clipped yuv2rgb_def yuv2rgb_clipped_clamp8 prod.case uint_clamp8 by (rule refl)

lemma upt_six: "[k..<k + 6 * Suc n] = [k, k + 1, k + 2, k + 3, k + 4, k + 5] @ [k + 6..<k + 6 + 6 * n]"
proof -
  have "[k..<k + 6 * Suc n] = [k..<k + 6] @ [k + 6..<k + 6 + 6 * n]"
    using upt_add_eq_append [of k "k + 6" "6 * n"] by (simp add: add.assoc)
  moreover have "[k..<k + 6] = [k, k + 1, k + 2, k + 3, k + 4, k + 5]"
    by (simp add: upt_rec)
  ultimately show ?thesis by simp
qed

lemma drop_four:
  assumes "i + 3 < length xs"
  shows "drop i xs = xs ! i # xs ! (i + 1) # xs ! (i + 2) # xs ! (i + 3) # drop (i + 4) xs"
proof -
  have "drop i xs = xs ! i # drop (Suc i) xs"
    using assms by (simp add: Cons_nth_drop_Suc)
  also have "drop (Suc i) xs = xs ! (i + 1) # drop (Suc (Suc i)) xs"
    using assms by (simp add: Cons_nth_drop_Suc)
  also have "drop (Suc (Suc i)) xs = xs ! (i + 2) # drop (Suc (Suc (Suc i))) xs"
    using assms by (simp add: Cons_nth_drop_Suc)
  also have "drop (Suc (Suc (Suc i))) xs = xs ! (i + 3) # drop (i + 4) xs"
    using assms Cons_nth_drop_Suc [of "i + 3" xs] by (simp add: numeral_eq_Suc)
  finally show ?thesis .
qed

lemma yuyv_loop_groups:
  assumes "int i + 4 * int n = sz" and "nat sz \<le> length pptr"
    and "newi + 6 * n \<le> BIGBUFFER_SIZE"
  shows "\<exists>bb'. yuyv_loop pptr sz i newi bb = Some bb' \<and>
           (\<forall>k<newi. bb' k = bb k) \<and>
           (\<forall>k\<ge>newi + 6 * n. bb' k = bb k) \<and>
           map (\<lambda>k. uint (bb' k)) [newi..<newi + 6 * n] =
             spec_convert (map uint (drop i (take (nat sz) pptr)))"
  using assms
proof (induction n arbitrary: i newi bb)
  case 0
  then have "nat sz = i" by simp
  with 0 show ?case by (simp add: yuyv_loop.simps)
next
  case (Suc n)
  obtain r g b where rgb: "yuv2rgb (uint (pptr ! i)) (uint (pptr ! (i + 1))) (uint (pptr ! (i + 3))) = (r, g, b)"
    by (cases "yuv2rgb (uint (pptr ! i)) (uint (pptr ! (i + 1))) (uint (pptr ! (i + 3)))") auto
  obtain r2 g2 b2 where rgb2: "yuv2rgb (uint (pptr ! (i + 2))) (uint (pptr ! (i + 1))) (uint (pptr ! (i + 3))) = (r2, g2, b2)"
    by (cases "yuv2rgb (uint (pptr ! (i + 2))) (uint (pptr ! (i + 1))) (uint (pptr ! (i + 3)))") auto
  define bb1 where "bb1 = bb(newi := r, newi + 1 := g, newi + 2 := b,
                              newi + 3 := r2, newi + 4 := g2, newi + 5 := b2)"
  have lt: "int i < sz" and inb: "i + 3 < length pptr" and outb: "newi + 5 < BIGBUFFER_SIZE"
    using Suc.prems by auto
  have step: "yuyv_loop pptr sz i newi bb = yuyv_loop pptr sz (i + 4) (newi + 6) bb1"
    using lt inb outb rgb rgb2 by (subst yuyv_loop.simps) (simp add: bb1_def)
  have "int (i + 4) + 4 * int n = sz" and "newi + 6 + 6 * n \<le> BIGBUFFER_SIZE"
    using Suc.prems by auto
  from Suc.IH [OF this(1) Suc.prems(2) this(2), of bb1]
  obtain bb' where run: "yuyv_loop pptr sz (i + 4) (newi + 6) bb1 = Some bb'"
    and keep: "\<forall>k<newi + 6. bb' k = bb1 k"
    and beyond: "\<forall>k\<ge>newi + 6 + 6 * n. bb' k = bb1 k"
    and rest: "map (\<lambda>k. uint (bb' k)) [newi + 6..<newi + 6 + 6 * n] =
                 spec_convert (map uint (drop (i + 4) (take (nat sz) pptr)))"
    by blast
  have len: "i + 3 < length (take (nat sz) pptr)"
    using Suc.prems by auto
  have lt3: "i + 3 < nat sz"
    using Suc.prems by auto
  have first: "[uint (bb' newi), uint (bb' (newi + 1)), uint (bb' (newi + 2))] = spec_rgb (uint (pptr ! i)) (uint (pptr ! (i + 1))) (uint (pptr ! (i + 3)))"
    using keep yuv2rgb_spec [of "uint (pptr ! i)" "uint (pptr ! (i + 1))" "uint (pptr ! (i + 3))"] rgb
    by (simp add: bb1_def)
  have second: "[uint (bb' (newi + 3)), uint (bb' (newi + 4)), uint (bb' (newi + 5))] = spec_rgb (uint (pptr ! (i + 2))) (uint (pptr ! (i + 1))) (uint (pptr ! (i + 3)))"
    using keep yuv2rgb_spec [of "uint (pptr ! (i + 2))" "uint (pptr ! (i + 1))" "uint (pptr ! (i + 3))"] rgb2
    by (simp add: bb1_def)
  have "map (\<lambda>k. uint (bb' k)) [newi..<newi + 6 * Suc n] =
          [uint (bb' newi), uint (bb' (newi + 1)), uint (bb' (newi + 2))] @
          [uint (bb' (newi + 3)), uint (bb' (newi + 4)), uint (bb' (newi + 5))] @
          map (\<lambda>k. uint (bb' k)) [newi + 6..<newi + 6 + 6 * n]"
    by (simp only: upt_six map_append list.map append.simps)
  also have "\<dots> = spec_convert (map uint (drop i (take (nat sz) pptr)))"
    unfolding first second rest
    using lt3 by (simp add: drop_four [OF len])
  finally have conv: "map (\<lambda>k. uint (bb' k)) [newi..<newi + 6 * Suc n] =
      spec_convert (map uint (drop i (take (nat sz) pptr)))" .
  have low: "\<forall>k<newi. bb' k = bb k"
    using keep by (simp add: bb1_def)
  have high: "\<forall>k\<ge>newi + 6 * Suc n. bb' k = bb k"
    using beyond by (simp add: bb1_def)
  from step run conv low high show ?case by simp
qed

lemma out_size:
  assumes "0 \<le> sz" and "4 dvd sz"
  shows "nat ((sz * 6) sdiv 4) = 6 * nat (sz div 4)" and "int (nat (sz div 4)) * 4 = sz"
    and "2 * nat ((sz * 6) sdiv 4) = 3 * nat sz"
proof -
  from assms obtain k where k: "sz = 4 * k" and k0: "0 \<le> k" by (auto elim!: dvdE)
  have "(sz * 6) sdiv 4 = sz * 6 div 4"
    using assms(1) by (simp add: signed_divide_int_def sgn_if)
  also have "\<dots> = 6 * k" using k by simp
  finally have s: "(sz * 6) sdiv 4 = 6 * k" .
  show "nat ((sz * 6) sdiv 4) = 6 * nat (sz div 4)" using s k k0 by (simp add: nat_mult_distrib)
  show "int (nat (sz div 4)) * 4 = sz" using k k0 by simp
  show "2 * nat ((sz * 6) sdiv 4) = 3 * nat sz" using s k k0 by (simp add: nat_mult_distrib)
qed

lemma yuyv_loop_converts:
  assumes "0 \<le> sz" and "4 dvd sz" and "nat sz \<le> length pptr"
    and "nat ((sz * 6) sdiv 4) \<le> BIGBUFFER_SIZE"
  shows "\<exists>bb'. yuyv_loop pptr sz 0 0 bb = Some bb' \<and>
           map uint (map bb' [0..<nat ((sz * 6) sdiv 4)]) = spec_convert (map uint (take (nat sz) pptr)) \<and>
           (\<forall>k\<ge>nat ((sz * 6) sdiv 4). bb' k = bb k)"
proof -
  have a: "int 0 + 4 * int (nat (sz div 4)) = sz"
    using out_size(2) [OF assms(1,2)] by simp
  have b: "0 + 6 * nat (sz div 4) \<le> BIGBUFFER_SIZE"
    using assms(4) out_size(1) [OF assms(1,2)] by simp
  from yuyv_loop_groups [OF a assms(3) b, of bb]
  show ?thesis
    by (auto simp: out_size(1) [OF assms(1,2)] comp_def)
qed

text \<open>
  The bound of \<open>bigbuffer\<close> is part of the code: \<open>1280*960\<close> bytes hold the conversion of
  at most 819200 input bytes (a frame of 320 by 240 pixels has 153600).  A larger frame
  makes the loop write past the end of \<open>bigbuffer\<close>.
\<close>

lemma yuyv_loop_overflow:
  assumes "int i < sz" and "BIGBUFFER_SIZE < newi + 6 * ((nat sz - i + 3) div 4)"
  shows "yuyv_loop pptr sz i newi bb = None"
  using assms
proof (induction "(nat sz - i + 3) div 4" arbitrary: i newi bb)
  case 0
  then have "nat sz - i + 3 < 4" by (simp add: div_eq_0_iff)
  with 0 show ?case by simp
next
  case (Suc n)
  show ?case
  proof (cases "i + 3 < length pptr \<and> newi + 5 < BIGBUFFER_SIZE")
    case False
    with Suc.prems show ?thesis by (subst yuyv_loop.simps) auto
  next
    case True
    obtain r g b where rgb: "yuv2rgb (uint (pptr ! i)) (uint (pptr ! (i + 1))) (uint (pptr ! (i + 3))) = (r, g, b)"
      by (cases "yuv2rgb (uint (pptr ! i)) (uint (pptr ! (i + 1))) (uint (pptr ! (i + 3)))") auto
    obtain r2 g2 b2 where rgb2: "yuv2rgb (uint (pptr ! (i + 2))) (uint (pptr ! (i + 1))) (uint (pptr ! (i + 3))) = (r2, g2, b2)"
      by (cases "yuv2rgb (uint (pptr ! (i + 2))) (uint (pptr ! (i + 1))) (uint (pptr ! (i + 3)))") auto
    define bb1 where "bb1 = bb(newi := r, newi + 1 := g, newi + 2 := b,
                                newi + 3 := r2, newi + 4 := g2, newi + 5 := b2)"
    have step: "yuyv_loop pptr sz i newi bb = yuyv_loop pptr sz (i + 4) (newi + 6) bb1"
      using Suc.prems(1) True rgb rgb2 by (subst yuyv_loop.simps) (simp add: bb1_def)
    have n: "n = (nat sz - (i + 4) + 3) div 4"
      using Suc.hyps(2) Suc.prems(1) by (simp add: nat_less_iff)
    have more: "int (i + 4) < sz"
    proof (rule ccontr)
      assume "\<not> int (i + 4) < sz"
      then have "nat sz - i \<le> 4" by simp
      then have "(nat sz - i + 3) div 4 \<le> 1" by simp
      with Suc.prems(2) True show False by simp
    qed
    have "BIGBUFFER_SIZE < newi + 6 * Suc n"
      unfolding Suc.hyps(2) by (rule Suc.prems(2))
    then have "BIGBUFFER_SIZE < newi + 6 + 6 * n"
      by simp
    then have "BIGBUFFER_SIZE < newi + 6 + 6 * ((nat sz - (i + 4) + 3) div 4)"
      unfolding n .
    from Suc.hyps(1) [OF n more this] step show ?thesis by simp
  qed
qed

lemma process_image_overflow:
  assumes "pixelformat w = V4L2_PIX_FMT_YUYV" and "0 < sz"
    and "BIGBUFFER_SIZE < 6 * ((nat sz + 3) div 4)"
  shows "process_image pptr sz ofd wrs w = Undefined"
  using assms yuyv_loop_overflow [of 0 sz 0 pptr "bigbuffer w"]
  by (simp add: process_image_def Let_def)

section \<open>Lemmas on artifact emission\<close>

lemma replicate_pos: "0 < n \<Longrightarrow> replicate n x = x # replicate (n - 1) x"
  by (cases n) simp_all

lemma sys_write_frame: "sys_write fd path off buf cnt r w = (off', w') \<Longrightarrow> w' = w\<lparr>files := files w'\<rparr>"
  by (auto simp: sys_write_def Let_def split: if_splits)

lemma c_int_add [simp]:
  "c_int (c_int a + b) = c_int (a + b)" "c_int (a + c_int b) = c_int (a + b)"
  by (simp_all add: c_int_def)

lemma c_int_idem [simp]: "c_int (c_int a) = c_int a"
  by (simp add: c_int_def)

lemma c_int_0 [simp]: "c_int 0 = 0"
  by (simp add: c_int_def)

lemma c_int_in_range: "- (2 ^ 31) \<le> x \<Longrightarrow> x < 2 ^ 31 \<Longrightarrow> c_int x = x"
  by (simp add: c_int_def signed_of_int signed_take_bit_int_eq_self)

lemma c_int_wraps: "c_int (2 ^ 31) = - (2 ^ 31)" "c_int (- (2 ^ 31) - 1) = 2 ^ 31 - 1"
  by (simp_all add: c_int_def)

lemma write_loop_frame:
  "write_loop fd path p sz rets t off w = Return (t', w') \<Longrightarrow> w' = w\<lparr>files := files w'\<rparr>"
proof (induction rets arbitrary: t off w)
  case Nil
  then show ?case by simp
next
  case (Cons r rets)
  obtain off1 w1 where sw: "sys_write fd path off p sz r w = (off1, w1)"
    by (cases "sys_write fd path off p sz r w") auto
  from sys_write_frame [OF sw] have w1: "w1 = w\<lparr>files := files w1\<rparr>" .
  show ?case
  proof (cases "c_int (t + r) < c_int sz")
    case True
    with Cons.prems sw have "write_loop fd path p sz rets (c_int (t + r)) off1 w1 = Return (t', w')"
      by simp
    from Cons.IH [OF this] have w': "w' = w1\<lparr>files := files w'\<rparr>" .
    have "w' = (w\<lparr>files := files w1\<rparr>)\<lparr>files := files w'\<rparr>"
      unfolding w1 [symmetric] by (fact w')
    then show ?thesis by simp
  next
    case False
    with Cons.prems sw w1 show ?thesis by simp
  qed
qed

lemma bex_upto_Suc: "(\<exists>k \<in> {1..Suc n}. P k) = (P 1 \<or> (\<exists>j \<in> {1..n}. P (Suc j)))"
proof
  assume "\<exists>k \<in> {1..Suc n}. P k"
  then obtain k where k: "1 \<le> k" "k \<le> Suc n" "P k" by auto
  show "P 1 \<or> (\<exists>j \<in> {1..n}. P (Suc j))"
  proof (cases "k = 1")
    case True
    with k show ?thesis by simp
  next
    case False
    with k obtain j where "k = Suc j" "1 \<le> j" "j \<le> n" by (cases k) auto
    with k show ?thesis by auto
  qed
next
  assume "P 1 \<or> (\<exists>j \<in> {1..n}. P (Suc j))"
  then show "\<exists>k \<in> {1..Suc n}. P k"
  proof
    assume "P 1"
    then show ?thesis by (auto intro!: bexI [of _ 1])
  next
    assume "\<exists>j \<in> {1..n}. P (Suc j)"
    then obtain j where "1 \<le> j" "j \<le> n" "P (Suc j)" by auto
    then show ?thesis by (auto intro!: bexI [of _ "Suc j"])
  qed
qed

text \<open>
  The loop is left exactly when the running total, as the \<open>int\<close> it is, is no longer
  below \<open>size\<close>.
\<close>

lemma write_loop_outcome:
  "(case write_loop fd path p sz rets t off w of
      Return (t', w') \<Rightarrow>
        (\<exists>k \<in> {1..length rets}. c_int sz \<le> c_int (t + sum_list (take k rets))) \<and> c_int sz \<le> t'
    | Blocked \<Rightarrow> \<not> (\<exists>k \<in> {1..length rets}. c_int sz \<le> c_int (t + sum_list (take k rets)))
    | _ \<Rightarrow> False)"
proof (induction rets arbitrary: t off w)
  case Nil
  show ?case by simp
next
  case (Cons r rets)
  obtain off1 w1 where sw: "sys_write fd path off p sz r w = (off1, w1)"
    by (cases "sys_write fd path off p sz r w") auto
  have split: "(\<exists>k \<in> {1..length (r # rets)}. c_int sz \<le> c_int (t + sum_list (take k (r # rets)))) =
      (c_int sz \<le> c_int (t + r) \<or>
       (\<exists>j \<in> {1..length rets}. c_int sz \<le> c_int (c_int (t + r) + sum_list (take j rets))))"
    using bex_upto_Suc [where n = "length rets"
        and P = "\<lambda>k. c_int sz \<le> c_int (t + sum_list (take k (r # rets)))"]
    by (simp add: add.assoc)
  show ?case
  proof (cases "c_int (t + r) < c_int sz")
    case True
    with Cons.IH [of "c_int (t + r)" off1 w1] sw show ?thesis
      unfolding split
      by (cases "write_loop fd path p sz rets (c_int (t + r)) off1 w1") auto
  next
    case False
    then show ?thesis unfolding split using sw by simp
  qed
qed

lemma not_reaches_zeros: "0 < c_int sz \<Longrightarrow> \<not> reaches sz (replicate n 0)"
  by (simp add: reaches_def take_replicate sum_list_replicate)

lemma length_ppm_header: "length ppm_header = 48"
  by (simp add: ppm_header_def HRES_STR_def VRES_STR_def)

lemma dump_ppm_outcome:
  "(case dump_ppm p sz tag ofd wrs w of
      Return w' \<Rightarrow> wrs \<noteq> [] \<and> reaches sz (tl wrs)
    | Blocked \<Rightarrow> wrs = [] \<or> \<not> reaches sz (tl wrs)
    | _ \<Rightarrow> False)"
proof (cases wrs)
  case Nil
  then show ?thesis by (simp add: dump_ppm_def Let_def)
next
  case (Cons h rets)
  define w1 where "w1 = sys_open_creat (c_str (dump_name (ppm_dumpname w) tag)) ofd (w\<lparr>ppm_dumpname := dump_name (ppm_dumpname w) tag\<rparr>)"
  obtain off w2 where sw: "sys_write ofd (c_str (dump_name (ppm_dumpname w) tag)) 0 (map of_char ppm_header) (int (length ppm_header)) h w1 = (off, w2)"
    by (cases "sys_write ofd (c_str (dump_name (ppm_dumpname w) tag)) 0 (map of_char ppm_header) (int (length ppm_header)) h w1") auto
  have d: "dump_ppm p sz tag ofd wrs w =
      obind (write_loop ofd (c_str (dump_name (ppm_dumpname w) tag)) p sz rets 0 off w2) (\<lambda>(t, w). Return w)"
    using Cons sw by (simp add: dump_ppm_def Let_def w1_def)
  have r: "(\<exists>k \<in> {1..length rets}. c_int sz \<le> c_int (0 + sum_list (take k rets))) = reaches sz rets"
    by (simp add: reaches_def)
  from write_loop_outcome [where fd = ofd and path = "c_str (dump_name (ppm_dumpname w) tag)"
      and p = p and sz = sz and rets = rets and t = 0 and off = off and w = w2]
  have "(case write_loop ofd (c_str (dump_name (ppm_dumpname w) tag)) p sz rets 0 off w2 of
           Return (t', w') \<Rightarrow> reaches sz rets \<and> c_int sz \<le> t'
         | Blocked \<Rightarrow> \<not> reaches sz rets
         | _ \<Rightarrow> False)"
    unfolding r .
  then show ?thesis
    unfolding d using Cons
    by (cases "write_loop ofd (c_str (dump_name (ppm_dumpname w) tag)) p sz rets 0 off w2") auto
qed

text \<open>
  \<open>total\<close> wraps: when every \<open>write\<close> of the payload fails with -1, the loop is left
  after \<open>2^31 + 1\<close> of them, \<open>total\<close> having come round to \<open>2^31 - 1\<close>.
\<close>

lemma reaches_minus_ones: "reaches 3 (replicate (2 ^ 31 + 1) (- 1))"
  unfolding reaches_def
  by (rule bexI [of _ "2 ^ 31 + 1"]) (simp_all add: sum_list_replicate c_int_def)

lemma dump_ppm_total_wraps:
  "\<exists>w'. dump_ppm p 3 tag ofd (h # replicate (2 ^ 31 + 1) (- 1)) w = Return w'"
  using dump_ppm_outcome [where p = p and sz = 3 and tag = tag and ofd = ofd
      and wrs = "h # replicate (2 ^ 31 + 1) (- 1)" and w = w] reaches_minus_ones
  by (cases "dump_ppm p 3 tag ofd (h # replicate (2 ^ 31 + 1) (- 1)) w") auto

text \<open>
  When every \<open>write\<close> of the payload returns 0 the loop is never left, and nothing else
  ends \<open>dump_ppm\<close>.
\<close>

lemma dump_ppm_no_progress:
  assumes "0 < c_int sz"
  shows "dump_ppm p sz tag ofd (h # replicate n 0) w = Blocked"
proof -
  from assms have "\<not> reaches sz (replicate n 0)" by (rule not_reaches_zeros)
  with dump_ppm_outcome [where p = p and sz = sz and tag = tag and ofd = ofd
      and wrs = "h # replicate n 0" and w = w]
  show ?thesis
    by (cases "dump_ppm p sz tag ofd (h # replicate n 0) w") auto
qed

lemma dump_ppm_complete:
  assumes "ofd \<noteq> -1" and "0 \<le> sz" and "nat sz \<le> length p"
    and "path = c_str (dump_name (ppm_dumpname w) tag)"
    and "\<forall>old. files w path = Some old \<longrightarrow> length old \<le> 48 + nat sz"
  shows "dump_ppm p sz tag ofd (48 # sz # rets) w =
           Return (w\<lparr>ppm_dumpname := dump_name (ppm_dumpname w) tag,
                     files := (files w)(path \<mapsto> map of_char ppm_header @ payload p sz)\<rparr>)"
proof (cases "sz = 0")
  case True
  with assms show ?thesis
    by (auto simp: dump_ppm_def Let_def sys_open_creat_def sys_write_def length_ppm_header
        payload_def store_def split: option.splits)
next
  case False
  with assms show ?thesis
    by (auto simp: dump_ppm_def Let_def sys_open_creat_def sys_write_def length_ppm_header
        payload_def store_def split: option.splits)
qed

lemma dump_ppm_frame:
  assumes "dump_ppm p sz tag ofd wrs w = Return w'"
  shows "w' = w\<lparr>ppm_dumpname := dump_name (ppm_dumpname w) tag, files := files w'\<rparr>"
proof (cases wrs)
  case Nil
  with assms show ?thesis by (simp add: dump_ppm_def Let_def)
next
  case (Cons h rets)
  define w1 where "w1 = sys_open_creat (c_str (dump_name (ppm_dumpname w) tag)) ofd (w\<lparr>ppm_dumpname := dump_name (ppm_dumpname w) tag\<rparr>)"
  have w1: "w1 = w\<lparr>ppm_dumpname := dump_name (ppm_dumpname w) tag, files := files w1\<rparr>"
    by (simp add: w1_def sys_open_creat_def split: option.splits)
  obtain off w2 where sw: "sys_write ofd (c_str (dump_name (ppm_dumpname w) tag)) 0 (map of_char ppm_header) (int (length ppm_header)) h w1 = (off, w2)"
    by (cases "sys_write ofd (c_str (dump_name (ppm_dumpname w) tag)) 0 (map of_char ppm_header) (int (length ppm_header)) h w1") auto
  from sys_write_frame [OF sw] have w2: "w2 = w1\<lparr>files := files w2\<rparr>" .
  have d: "dump_ppm p sz tag ofd wrs w =
      obind (write_loop ofd (c_str (dump_name (ppm_dumpname w) tag)) p sz rets 0 off w2) (\<lambda>(t, w). Return w)"
    using Cons sw by (simp add: dump_ppm_def Let_def w1_def)
  from assms obtain t where "write_loop ofd (c_str (dump_name (ppm_dumpname w) tag)) p sz rets 0 off w2 = Return (t, w')"
    unfolding d by (cases "write_loop ofd (c_str (dump_name (ppm_dumpname w) tag)) p sz rets 0 off w2") auto
  from write_loop_frame [OF this] have w': "w' = w2\<lparr>files := files w'\<rparr>" .
  have "w' = ((w\<lparr>ppm_dumpname := dump_name (ppm_dumpname w) tag, files := files w1\<rparr>)
               \<lparr>files := files w2\<rparr>)\<lparr>files := files w'\<rparr>"
    unfolding w1 [symmetric] w2 [symmetric] by (fact w')
  then show ?thesis by simp
qed

text \<open>
  The name \<open>dump_ppm\<close> builds, for every tag and every state of \<open>ppm_dumpname\<close> that a
  call of \<open>dump_ppm\<close> can leave: the array keeps its 24 characters (no write leaves it), and
  the name is \<open>fram\<close>, the first eight characters of the \<open>%08d\<close> conversion and \<open>.ppm\<close>.
\<close>

lemma digit_not_NUL: "d < 10 \<Longrightarrow> digit d \<noteq> NUL"
proof -
  assume "d < 10"
  then have "d \<in> {0, 1, 2, 3, 4, 5, 6, 7, 8, 9}" by auto
  then show ?thesis by (auto simp: digit_def NUL_def)
qed

lemma dec_not_NUL: "NUL \<notin> set (dec n)"
proof (induction n rule: dec.induct)
  case (1 n)
  show ?case
  proof (cases "n < 10")
    case True
    then show ?thesis using digit_not_NUL [of n] by (subst dec.simps) auto
  next
    case False
    with 1 have "NUL \<notin> set (dec (n div 10))" by simp
    moreover have "digit (n mod 10) \<noteq> NUL" by (rule digit_not_NUL) simp
    ultimately show ?thesis using False by (subst dec.simps) auto
  qed
qed

lemma fmt_08d_not_NUL: "NUL \<notin> set (fmt_08d x)"
  using dec_not_NUL by (auto simp: fmt_08d_def Let_def NUL_def)

lemma length_fmt_08d: "8 \<le> length (fmt_08d x)"
  by (simp add: fmt_08d_def Let_def) arith

lemma dump_name_any_frame:
  assumes "length buf = 24" and "take 4 buf = ''fram''"
  shows "c_str (dump_name buf tag) = ''fram'' @ take 8 (fmt_08d (sint tag)) @ ''.ppm''"
    and "length (dump_name buf tag) = 24"
    and "take 4 (dump_name buf tag) = ''fram''"
proof -
  let ?d = "take 8 (fmt_08d (sint tag))"
  have len: "length ?d = 8" using length_fmt_08d [of "sint tag"] by simp
  have nonul: "NUL \<notin> set ?d" using fmt_08d_not_NUL [of "sint tag"] by (auto dest: in_set_takeD)
  let ?b1 = "snprintf_08d buf 4 9 (sint tag)"
  have b1: "?b1 = ''fram'' @ ?d @ [NUL] @ drop 13 buf"
    using assms len by (simp add: snprintf_08d_def store_def)
  have "drop 12 ?b1 = NUL # drop 13 buf"
    unfolding b1 using len by simp
  then have z: "c_str (drop 12 ?b1) = []"
    by (simp add: c_str_def)
  have l1: "length ?b1 = 24" unfolding b1 using assms len by simp
  have dn: "dump_name buf tag = ''fram'' @ ?d @ ''.ppm'' @ [NUL] @ drop 17 buf"
    unfolding dump_name_def strncat_def z using len assms
    by (simp add: store_def b1)
  have "takeWhile (\<lambda>c. c \<noteq> NUL) (?d @ ''.ppm'' @ [NUL] @ drop 17 buf) =
          ?d @ takeWhile (\<lambda>c. c \<noteq> NUL) (''.ppm'' @ [NUL] @ drop 17 buf)"
    using nonul by (intro takeWhile_append2) auto
  then show "c_str (dump_name buf tag) = ''fram'' @ ?d @ ''.ppm''"
    unfolding dn c_str_def by (simp add: NUL_def)
  show "length (dump_name buf tag) = 24"
    unfolding dn using len assms by simp
  show "take 4 (dump_name buf tag) = ''fram''"
    unfolding dn by simp
qed

lemma example_path: "c_str (dump_name (ppm_dumpname example_world) 1) = ''fram00000001.ppm''"
  by (simp add: example_world_def dump_name_def strncat_def snprintf_08d_def store_def fmt_08d_def dec.simps
      digit_def c_str_def NUL_def ppm_dumpname_init_def replicate_pos)

lemma example_dump:
  "dump_ppm [1, 2, 3] 3 1 3 [48, 3] example_world =
     Return (example_world\<lparr>ppm_dumpname := dump_name (ppm_dumpname example_world) 1,
       files := (files example_world)(''fram00000001.ppm'' \<mapsto> map of_char ppm_header @ [1, 2, 3])\<rparr>)"
  using dump_ppm_complete [where ofd = 3 and sz = 3 and p = "[1, 2, 3]" and path = "''fram00000001.ppm''"
      and w = example_world and tag = 1 and rets = "[]"]
  by (simp add: example_path payload_def) (simp add: example_world_def)

lemma example_name: "c_str (dump_name ppm_dumpname_init 1) = ''fram00000001.ppm''"
  using example_path by (simp add: example_world_def)

text \<open>
  A retried \<open>write\<close> starts again at \<open>p\<close>: after a short write of 4 bytes and a second
  one of 2, the file holds the first 4 bytes of the payload and then its first 2 again.
\<close>

lemma short_write_resends_from_start:
  "\<exists>w'. dump_ppm [1, 2, 3, 4, 5, 6] 6 1 3 [48, 4, 2] example_world = Return w' \<and>
     files w' ''fram00000001.ppm'' = Some (map of_char ppm_header @ [1, 2, 3, 4] @ [1, 2])"
  by (simp add: dump_ppm_def Let_def sys_open_creat_def sys_write_def example_name payload_def
      store_def length_ppm_header example_world_def c_int_def)

section \<open>Lemmas on the acquisition loop\<close>

text \<open>\<open>mainloop\<close> runs the loop with \<open>count = frame_count\<close>, which is 30.\<close>

lemma mainloop_frame_count: "mainloop its w = mainloop_while 30 its w"
  by (simp add: mainloop_def frame_count_def)

lemma mainloop_while_step:
  "0 < count \<Longrightarrow> mainloop_for count its w = Return (count', its', w') \<Longrightarrow>
   mainloop_while count its w = mainloop_while count' its' w'"
proof -
  assume pos: "0 < count" and run: "mainloop_for count its w = Return (count', its', w')"
  have unfold: "mainloop_while count its w =
      (if count' \<le> 0 then Return (its', w') else mainloop_while count' its' w')"
    using pos run by (subst mainloop_while.simps) simp
  show ?thesis
  proof (cases "count' \<le> 0")
    case True
    then have "\<not> 0 < count'" by (simp add: not_less)
    then have "mainloop_while count' its' w' = Return (its', w')"
      by (subst mainloop_while.simps) simp
    with unfold True show ?thesis by simp
  next
    case False
    with unfold show ?thesis by simp
  qed
qed

lemma mainloop_while_fails:
  "0 < count \<Longrightarrow> mainloop_for count its w = Exit s w' \<Longrightarrow> mainloop_while count its w = Exit s w'"
  by (subst mainloop_while.simps) simp

lemma dump_ppm_returns:
  assumes "dump_ok sz wrs"
  shows "\<exists>w'. dump_ppm p sz tag ofd wrs w = Return w' \<and>
           w' = w\<lparr>ppm_dumpname := dump_name (ppm_dumpname w) tag, files := files w'\<rparr>"
proof -
  from dump_ppm_outcome [where p = p and sz = sz and tag = tag and ofd = ofd and wrs = wrs and w = w] assms
  obtain w' where r: "dump_ppm p sz tag ofd wrs w = Return w'"
    by (cases "dump_ppm p sz tag ofd wrs w") (auto simp: dump_ok_def)
  from dump_ppm_frame [OF r] r show ?thesis by blast
qed

lemma process_image_returns:
  assumes "image_ok (pixelformat w) it"
  shows "\<exists>w'. process_image (dq_mem it) (sint (dq_bytesused it)) (open_ret it) (write_rets it) w = Return w' \<and>
           framecnt w' = framecnt w + 1 \<and> n_buffers w' = n_buffers w \<and> pixelformat w' = pixelformat w"
proof -
  let ?sz = "sint (dq_bytesused it)"
  consider (yuyv) "pixelformat w = V4L2_PIX_FMT_YUYV"
    | (rgb) "pixelformat w \<noteq> V4L2_PIX_FMT_YUYV" "pixelformat w = V4L2_PIX_FMT_RGB24"
    | (other) "pixelformat w \<noteq> V4L2_PIX_FMT_YUYV" "pixelformat w \<noteq> V4L2_PIX_FMT_RGB24"
    by blast
  then show ?thesis
  proof cases
    case yuyv
    with assms have ok: "0 \<le> ?sz" "4 dvd ?sz" "nat ?sz \<le> length (dq_mem it)"
      "nat ((?sz * 6) sdiv 4) \<le> BIGBUFFER_SIZE" and d: "dump_ok ((?sz * 6) sdiv 4) (write_rets it)"
      by (simp_all add: image_ok_def Let_def)
    from yuyv_loop_converts [OF ok, of "bigbuffer w"]
    obtain bb where bb: "yuyv_loop (dq_mem it) ?sz 0 0 (bigbuffer w) = Some bb" by blast
    let ?w1 = "w\<lparr>framecnt := framecnt w + 1, bigbuffer := bb\<rparr>"
    from dump_ppm_returns [OF d, of "map bb [0..<nat ((?sz * 6) sdiv 4)]" "framecnt w + 1" "open_ret it" ?w1]
    obtain w' where r: "dump_ppm (map bb [0..<nat ((?sz * 6) sdiv 4)]) ((?sz * 6) sdiv 4) (framecnt w + 1) (open_ret it) (write_rets it) ?w1 = Return w'"
      and f: "w' = ?w1\<lparr>ppm_dumpname := dump_name (ppm_dumpname ?w1) (framecnt w + 1), files := files w'\<rparr>"
      by blast
    have "process_image (dq_mem it) ?sz (open_ret it) (write_rets it) w = Return w'"
      using yuyv bb r by (simp add: process_image_def Let_def)
    moreover have "framecnt w' = framecnt w + 1" "n_buffers w' = n_buffers w" "pixelformat w' = pixelformat w"
      using arg_cong [OF f, of framecnt] arg_cong [OF f, of n_buffers] arg_cong [OF f, of pixelformat]
      by simp_all
    ultimately show ?thesis by blast
  next
    case rgb
    with assms have d: "dump_ok ?sz (write_rets it)"
      by (simp add: image_ok_def Let_def)
    let ?w1 = "w\<lparr>framecnt := framecnt w + 1\<rparr>"
    from dump_ppm_returns [OF d, of "dq_mem it" "framecnt w + 1" "open_ret it" ?w1]
    obtain w' where r: "dump_ppm (dq_mem it) ?sz (framecnt w + 1) (open_ret it) (write_rets it) ?w1 = Return w'"
      and f: "w' = ?w1\<lparr>ppm_dumpname := dump_name (ppm_dumpname ?w1) (framecnt w + 1), files := files w'\<rparr>"
      by blast
    have "process_image (dq_mem it) ?sz (open_ret it) (write_rets it) w = Return w'"
      using rgb r by (simp add: process_image_def Let_def)
    moreover have "framecnt w' = framecnt w + 1" "n_buffers w' = n_buffers w" "pixelformat w' = pixelformat w"
      using arg_cong [OF f, of framecnt] arg_cong [OF f, of n_buffers] arg_cong [OF f, of pixelformat]
      by simp_all
    ultimately show ?thesis by blast
  next
    case other
    then show ?thesis by (simp add: process_image_def Let_def)
  qed
qed

lemma read_frame_returns:
  assumes "frame_ready (n_buffers w) (pixelformat w) it"
  shows "\<exists>w'. read_frame it w = Return (1, w') \<and>
           framecnt w' = framecnt w + 1 \<and> n_buffers w' = n_buffers w \<and> pixelformat w' = pixelformat w"
proof -
  from assms obtain r e where dq: "xioctl (dqbuf_rets it) = Some (r, e)" "r \<noteq> -1"
    by (auto simp: frame_ready_def ioctl_ok_def split: option.splits)
  from assms obtain r' e' where q: "xioctl (qbuf_rets it) = Some (r', e')" "r' \<noteq> -1"
    by (auto simp: frame_ready_def ioctl_ok_def split: option.splits)
  from assms have idx: "dq_index it < n_buffers w" and img: "image_ok (pixelformat w) it"
    by (simp_all add: frame_ready_def)
  from process_image_returns [OF img]
  obtain w' where p: "process_image (dq_mem it) (sint (dq_bytesused it)) (open_ret it) (write_rets it) w = Return w'"
    and k: "framecnt w' = framecnt w + 1" "n_buffers w' = n_buffers w" "pixelformat w' = pixelformat w"
    by blast
  have "read_frame it w = Return (1, w')"
    using dq q idx p by (simp add: read_frame_def)
  with k show ?thesis by blast
qed

lemma frame_ready_cases:
  "interrupted it \<Longrightarrow> \<not> frame_ready n fmt it"
  "not_ready it \<Longrightarrow> \<not> frame_ready n fmt it"
  by (auto simp: interrupted_def not_ready_def frame_ready_def select_ready_def ioctl_ok_def)

lemma mainloop_for_frame:
  assumes "0 < count"
    and "\<forall>it \<in> set its. interrupted it \<or> not_ready it \<or> frame_ready (n_buffers w) (pixelformat w) it"
    and "\<exists>it \<in> set its. frame_ready (n_buffers w) (pixelformat w) it"
  shows "\<exists>pre f rest w'. its = pre @ f # rest \<and>
           (\<forall>it \<in> set pre. \<not> frame_ready (n_buffers w) (pixelformat w) it) \<and>
           frame_ready (n_buffers w) (pixelformat w) f \<and>
           mainloop_for count its w = Return (count - 1, rest, w') \<and>
           framecnt w' = framecnt w + 1 \<and> n_buffers w' = n_buffers w \<and>
           pixelformat w' = pixelformat w"
  using assms(2,3)
proof (induction its arbitrary: w)
  case Nil
  then show ?case by simp
next
  case (Cons it its)
  let ?w = "w\<lparr>calls := calls w @ [Call_select 2 0]\<rparr>"
  have nle: "\<not> count \<le> 0" using assms(1) by (simp add: not_le)
  from Cons.prems(1) consider (intr) "interrupted it" | (again) "not_ready it"
    | (frame) "frame_ready (n_buffers w) (pixelformat w) it"
    by auto
  then show ?case
  proof cases
    case frame
    then have "frame_ready (n_buffers ?w) (pixelformat ?w) it" by simp
    from read_frame_returns [OF this]
    obtain w' where rf: "read_frame it ?w = Return (1, w')"
      and k: "framecnt w' = framecnt w + 1" "n_buffers w' = n_buffers w" "pixelformat w' = pixelformat w"
      by auto
    let ?w' = "if fst (nanosleep_ret it) \<noteq> 0
               then w'\<lparr>stderr := stderr w' @ [Perror ''nanosleep'' (snd (nanosleep_ret it))]\<rparr> else w'"
    from frame have sel: "fst (select_ret it) \<noteq> -1" "fst (select_ret it) \<noteq> 0"
      by (simp_all add: frame_ready_def select_ready_def)
    have "mainloop_for count (it # its) w = Return (count - 1, its, ?w')"
      using sel rf by (simp add: Let_def)
    moreover have "framecnt ?w' = framecnt w + 1" "n_buffers ?w' = n_buffers w" "pixelformat ?w' = pixelformat w"
      using k by simp_all
    ultimately show ?thesis
      using frame by (intro exI [of _ "[]"] exI [of _ it] exI [of _ its] exI [of _ ?w']) simp
  next
    case intr
    then have nf: "\<not> frame_ready (n_buffers w) (pixelformat w) it" by (rule frame_ready_cases)
    have step: "mainloop_for count (it # its) w = mainloop_for count its ?w"
      using intr by (simp add: interrupted_def Let_def)
    have "\<forall>it \<in> set its. interrupted it \<or> not_ready it \<or> frame_ready (n_buffers ?w) (pixelformat ?w) it"
      and "\<exists>it \<in> set its. frame_ready (n_buffers ?w) (pixelformat ?w) it"
      using Cons.prems nf by auto
    from Cons.IH [OF this]
    obtain pre f rest w' where "its = pre @ f # rest"
      "\<forall>it \<in> set pre. \<not> frame_ready (n_buffers w) (pixelformat w) it"
      "frame_ready (n_buffers w) (pixelformat w) f"
      "mainloop_for count its ?w = Return (count - 1, rest, w')"
      "framecnt w' = framecnt w + 1" "n_buffers w' = n_buffers w" "pixelformat w' = pixelformat w"
      by auto
    then show ?thesis
      using nf step by (intro exI [of _ "it # pre"] exI [of _ f] exI [of _ rest] exI [of _ w']) simp
  next
    case again
    then have nf: "\<not> frame_ready (n_buffers w) (pixelformat w) it" by (rule frame_ready_cases)
    from again have sel: "fst (select_ret it) \<noteq> -1" "fst (select_ret it) \<noteq> 0"
      by (simp_all add: not_ready_def select_ready_def)
    from again have "read_frame it ?w = Return (0, ?w)"
      by (auto simp: not_ready_def read_frame_def)
    then have step: "mainloop_for count (it # its) w = mainloop_for count its ?w"
      using sel nle by (simp add: Let_def)
    have "\<forall>it \<in> set its. interrupted it \<or> not_ready it \<or> frame_ready (n_buffers ?w) (pixelformat ?w) it"
      and "\<exists>it \<in> set its. frame_ready (n_buffers ?w) (pixelformat ?w) it"
      using Cons.prems nf by auto
    from Cons.IH [OF this]
    obtain pre f rest w' where "its = pre @ f # rest"
      "\<forall>it \<in> set pre. \<not> frame_ready (n_buffers w) (pixelformat w) it"
      "frame_ready (n_buffers w) (pixelformat w) f"
      "mainloop_for count its ?w = Return (count - 1, rest, w')"
      "framecnt w' = framecnt w + 1" "n_buffers w' = n_buffers w" "pixelformat w' = pixelformat w"
      by auto
    then show ?thesis
      using nf step by (intro exI [of _ "it # pre"] exI [of _ f] exI [of _ rest] exI [of _ w']) simp
  qed
qed

lemma unat_pred: "0 < (count :: u32) \<Longrightarrow> unat (count - 1) = unat count - 1"
  by (simp add: unat_minus_one word_gt_0)

lemma example_classes:
  "frame_ready 6 V4L2_PIX_FMT_YUYV example_frame" "not_ready example_again" "interrupted example_interrupt"
  "\<not> frame_ready 6 V4L2_PIX_FMT_YUYV example_again" "\<not> frame_ready 6 V4L2_PIX_FMT_YUYV example_interrupt"
  by (simp_all add: frame_ready_def not_ready_def interrupted_def select_ready_def ioctl_ok_def
      image_ok_def dump_ok_def reaches_def example_frame_def example_again_def example_interrupt_def
      BIGBUFFER_SIZE_def signed_divide_int_def)

text \<open>
  The model at work: an interrupted wait, a not-ready dequeue and one frame of four bytes,
  with \<open>count = 1\<close>.
\<close>

lemma example_conversion:
  "map_option (\<lambda>bb. map bb [0..<6]) (yuyv_loop [16, 128, 235, 128] 4 0 0 (\<lambda>_. 0)) = Some [0, 0, 0, 255, 255, 255]"
  by (simp add: yuyv_loop.simps BIGBUFFER_SIZE_def yuv2rgb_def yuv2rgb_clipped_def upt_rec)

lemma example_run:
  "(case mainloop_while 1 [example_interrupt, example_again, example_frame] example_world of
      Return (its, w) \<Rightarrow>
        its = [] \<and> framecnt w = 1 \<and>
        files w ''fram00000001.ppm'' = Some (map of_char ppm_header @ [0, 0, 0, 255, 255, 255]) \<and>
        calls w = [Call_select 2 0, Call_select 2 0, Call_select 2 0] \<and> stderr w = []
    | _ \<Rightarrow> False)"
  by (simp add: mainloop_while.simps example_interrupt_def example_again_def example_frame_def
      Let_def read_frame_def process_image_def yuyv_loop.simps BIGBUFFER_SIZE_def yuv2rgb_def
      yuv2rgb_clipped_def signed_divide_int_def upt_rec
      dump_ppm_def sys_open_creat_def sys_write_def example_name payload_def
      store_def length_ppm_header example_world_def)

section \<open>Lemmas on the buffer pool\<close>

lemma init_mmap_loop_mmap_fails:
  assumes "\<forall>b \<in> set good. ioctl_ok (querybuf_rets b) \<and> fst (mmap_ret b) \<noteq> MAP_FAILED"
    and "unat (n_buffers w) + length good < unat count"
    and "length (buffers w) = unat count"
    and "ioctl_ok (querybuf_rets bad)" and "fst (mmap_ret bad) = MAP_FAILED"
  shows "\<exists>w'. init_mmap_loop count (good @ bad # rest) w = Exit EXIT_FAILURE w' \<and>
           stderr w' = stderr w @ [Errno_exit ''mmap'' (snd (mmap_ret bad))]"
  using assms(1-3)
proof (induction good arbitrary: w)
  case Nil
  then have lt: "n_buffers w < count" and inb: "unat (n_buffers w) < length (buffers w)"
    by (simp_all add: word_less_nat_alt)
  from assms(4) obtain r e where q: "xioctl (querybuf_rets bad) = Some (r, e)" "r \<noteq> -1"
    by (auto simp: ioctl_ok_def split: option.splits)
  show ?case
    using lt inb q assms(5) by (simp add: Let_def errno_exit_def)
next
  case (Cons b good)
  then have lt: "n_buffers w < count" and inb: "unat (n_buffers w) < length (buffers w)"
    by (simp_all add: word_less_nat_alt)
  from Cons.prems(1) obtain r e where q: "xioctl (querybuf_rets b) = Some (r, e)" "r \<noteq> -1"
    and m: "fst (mmap_ret b) \<noteq> MAP_FAILED"
    by (auto simp: ioctl_ok_def split: option.splits)
  let ?n = "unat (n_buffers w)"
  let ?w = "w\<lparr>buffers := (buffers w)[?n := (fst (mmap_ret b), unat (buf_length b))],
               n_buffers := n_buffers w + 1\<rparr>"
  have step: "init_mmap_loop count ((b # good) @ bad # rest) w = init_mmap_loop count (good @ bad # rest) ?w"
    using lt inb q m by (simp add: Let_def)
  have "unat (n_buffers w) + 1 < 2 ^ 32"
    using Cons.prems(2) unsigned_less [of count, where 'a = nat] by simp
  then have suc: "unat (n_buffers w + 1) = unat (n_buffers w) + 1"
    by (simp add: unat_add_lem [THEN iffD1])
  have "\<forall>b \<in> set good. ioctl_ok (querybuf_rets b) \<and> fst (mmap_ret b) \<noteq> MAP_FAILED"
    and "unat (n_buffers ?w) + length good < unat count"
    and "length (buffers ?w) = unat count"
    using Cons.prems suc by simp_all
  from Cons.IH [OF this] step show ?case by simp
qed

section \<open>Claims on the pixel pipeline\<close>

text \<open>
  C1, as stated, fails: not every subsampled-422 input is converted.  \<open>bigbuffer\<close> has
  \<open>1280*960\<close> bytes and nothing compares a frame with it.  For a frame of 1280 by 720
  pixels (1843200 bytes, a multiple of 4) the conversion loop stores past the end of
  \<open>bigbuffer\<close>, and no RGB triple is handed on.
\<close>

theorem oversize_frame_counterexample:
  "4 dvd (1843200 :: int) \<and>
   process_image (replicate 1843200 0) 1843200 3 [48, 2764800] example_world = Undefined"
  using process_image_overflow [where w = example_world and sz = 1843200
      and pptr = "replicate 1843200 0" and ofd = 3 and wrs = "[48, 2764800]"]
  by (simp add: example_world_def BIGBUFFER_SIZE_def)

text \<open>
  C1, amended.  For a subsampled-422 frame whose conversion fits \<open>bigbuffer\<close> (\<open>size\<close>
  a multiple of 4 and at most 819200, the frame inside the mapped buffer), \<open>process_image\<close>
  hands \<open>dump_ppm\<close> the bytes that the specification's transform gives: the input is
  consumed in groups of four bytes (luma0, chromaU, luma1, chromaV), and each group yields
  the two RGB triples of (luma0, d, e) and (luma1, d, e), computed with the integer
  transform and \<open>clamp8\<close>.
\<close>

theorem process_image_yuyv_converts:
  assumes "pixelformat w = V4L2_PIX_FMT_YUYV"
    and "0 \<le> sz" and "4 dvd sz" and "nat sz \<le> length pptr"
    and "nat ((sz * 6) sdiv 4) \<le> BIGBUFFER_SIZE"
  shows "\<exists>bb rgb. process_image pptr sz ofd wrs w =
            dump_ppm rgb ((sz * 6) sdiv 4) (framecnt w + 1) ofd wrs
              (w\<lparr>framecnt := framecnt w + 1, bigbuffer := bb\<rparr>) \<and>
          rgb = map bb [0..<nat ((sz * 6) sdiv 4)] \<and>
          map uint rgb = spec_convert (map uint (take (nat sz) pptr))"
proof -
  from yuyv_loop_converts [OF assms(2-5), of "bigbuffer w"]
  obtain bb where "yuyv_loop pptr sz 0 0 (bigbuffer w) = Some bb"
    and "map uint (map bb [0..<nat ((sz * 6) sdiv 4)]) = spec_convert (map uint (take (nat sz) pptr))"
    by blast
  then show ?thesis
    using assms(1)
    by (intro exI [of _ bb] exI [of _ "map bb [0..<nat ((sz * 6) sdiv 4)]"])
       (simp add: process_image_def Let_def)
qed

theorem process_image_yuyv_converts_witness:
  "\<exists>bb rgb. process_image [16, 128, 235, 128] 4 3 [48, 6] example_world =
      dump_ppm rgb 6 1 3 [48, 6] (example_world\<lparr>framecnt := 1, bigbuffer := bb\<rparr>) \<and>
      rgb = map bb [0..<6] \<and> map uint rgb = [0, 0, 0, 255, 255, 255]"
  using process_image_yuyv_converts [of example_world 4 "[16, 128, 235, 128]" 3 "[48, 6]"]
  by (simp add: example_world_def BIGBUFFER_SIZE_def signed_divide_int_def spec_rgb_def clamp8_def)

text \<open>
  C2, as stated, fails: an input of 819204 bytes (a multiple of 4) would need 1228806
  output bytes, six more than \<open>bigbuffer\<close> has, and the conversion loop leaves
  \<open>bigbuffer\<close> before it has produced them.
\<close>

theorem oversize_input_counterexample:
  "4 dvd (819204 :: int) \<and> BIGBUFFER_SIZE < 819204 * 3 div 2 \<and>
   yuyv_loop (replicate 819204 0) 819204 0 0 (\<lambda>_. 0) = None"
  using yuyv_loop_overflow [where i = 0 and sz = 819204 and newi = 0
      and pptr = "replicate 819204 0" and bb = "\<lambda>_. 0"]
  by (simp add: BIGBUFFER_SIZE_def)

text \<open>
  C2, amended.  For a subsampled-422 input whose length \<open>size\<close> is a multiple of 4 and
  whose conversion fits \<open>bigbuffer\<close> (at most 819200 input bytes), whatever \<open>bigbuffer\<close>
  held before: the conversion loop completes; the bytes it has stored, which are the
  payload handed on for writing, are the values of the specification's transform, one
  output byte for each; these are one and a half times \<open>size\<close> values (twice their number
  is three times \<open>size\<close>), each in \<open>[0,255]\<close>, so that no store into \<open>unsigned char\<close> has
  cut a value; and the loop has stored nothing behind them.
\<close>

theorem yuyv_output_size_and_range:
  assumes "0 \<le> sz" and "4 dvd sz" and "nat sz \<le> length pptr"
    and "nat ((sz * 6) sdiv 4) \<le> BIGBUFFER_SIZE"
  shows "\<exists>bb. yuyv_loop pptr sz 0 0 bigbuf = Some bb \<and>
           map uint (payload (map bb [0..<nat ((sz * 6) sdiv 4)]) ((sz * 6) sdiv 4)) =
             spec_convert (map uint (take (nat sz) pptr)) \<and>
           2 * length (spec_convert (map uint (take (nat sz) pptr))) = 3 * nat sz \<and>
           (\<forall>v \<in> set (spec_convert (map uint (take (nat sz) pptr))). 0 \<le> v \<and> v \<le> 255) \<and>
           (\<forall>k\<ge>nat ((sz * 6) sdiv 4). bb k = bigbuf k)"
proof -
  let ?n = "nat ((sz * 6) sdiv 4)"
  let ?out = "spec_convert (map uint (take (nat sz) pptr))"
  from yuyv_loop_converts [OF assms, of bigbuf]
  obtain bb where run: "yuyv_loop pptr sz 0 0 bigbuf = Some bb"
    and conv: "map uint (map bb [0..<?n]) = ?out"
    and beyond: "\<forall>k\<ge>?n. bb k = bigbuf k"
    by blast
  have pay: "payload (map f [0..<?n]) ((sz * 6) sdiv 4) = map f [0..<?n]" for f :: "nat \<Rightarrow> byte"
    by (simp add: payload_def)
  have "length ?out = length (map uint (map bb [0..<?n]))"
    unfolding conv ..
  then have len: "2 * length ?out = 3 * nat sz"
    using out_size(3) [OF assms(1,2)] by simp
  have range: "\<forall>v \<in> set ?out. 0 \<le> v \<and> v \<le> 255"
  proof
    fix v
    assume "v \<in> set ?out"
    then obtain b :: byte where "v = uint b"
      unfolding conv [symmetric] by auto
    moreover have "uint b < 2 ^ 8"
      using uint_bounded [of b] by simp
    ultimately show "0 \<le> v \<and> v \<le> 255"
      by simp
  qed
  show ?thesis
    unfolding pay
    by (intro exI [of _ bb] conjI) (fact run conv len range beyond)+
qed

theorem yuyv_output_size_and_range_witness:
  "\<exists>bb. yuyv_loop [16, 128, 235, 128, 81, 90, 81, 240] 8 0 0 (\<lambda>_. 7) = Some bb \<and>
     map uint (payload (map bb [0..<12]) 12) = [0, 0, 0, 255, 255, 255, 255, 0, 0, 255, 0, 0] \<and>
     2 * length [0, 0, 0, 255, 255, 255, 255, 0, 0, 255, 0, 0 :: int] = 3 * (8 :: nat) \<and>
     bb 12 = 7"
  using yuyv_output_size_and_range [of 8 "[16, 128, 235, 128, 81, 90, 81, 240]" "\<lambda>_. 7"]
  by (auto simp: BIGBUFFER_SIZE_def signed_divide_int_def spec_rgb_def clamp8_def)

section \<open>Claims on artifact emission\<close>

text \<open>
  C3, as stated, fails: the comment field of the header that \<open>dump_ppm\<close> writes has 31
  characters, not 64.  The file written for a three-byte payload is the 48-character header
  and the payload; no width and height make it an artifact with a 64-character comment
  field.
\<close>

theorem artifact_comment_field_counterexample:
  "\<exists>w' content. dump_ppm [1, 2, 3] 3 1 3 [48, 3] example_world = Return w' \<and>
     files w' ''fram00000001.ppm'' = Some content \<and>
     content = map of_char ''P6\<newline>#9999999999 sec 9999999999 msec \<newline>320 240\<newline>255\<newline>'' @ [1, 2, 3] \<and>
     \<not> (\<exists>width height. claimed_artifact width height content)"
proof -
  let ?content = "map of_char ppm_header @ [1, 2, 3 :: byte]"
  have "\<not> claimed_artifact width height ?content" for width height
  proof
    assume "claimed_artifact width height ?content"
    then obtain comment rgb where "length comment = 64"
      and "?content = map of_char (''P6\<newline>#'' @ comment @ ''\<newline>'' @ dec width @ '' '' @ dec height @ ''\<newline>255\<newline>'') @ rgb"
      unfolding claimed_artifact_def by blast
    then have "length ?content = length (map of_char (''P6\<newline>#'' @ comment @ ''\<newline>'' @ dec width @ '' '' @ dec height @ ''\<newline>255\<newline>'') @ rgb :: byte list)"
      by simp
    with \<open>length comment = 64\<close> show False
      by (simp add: length_ppm_header)
  qed
  then show ?thesis
    unfolding example_dump
    by (simp add: ppm_header_def HRES_STR_def VRES_STR_def)
qed

text \<open>
  C3, amended.  When \<open>open\<close> succeeds, the file is new or no longer than the artifact, and
  the two calls of \<open>write\<close> write in full, the file \<open>dump_ppm\<close> leaves is the bit-exact
  header \<open>P6\<close> newline, \<open>#\<close> and a comment field of 31 fixed characters, newline, the fixed
  text \<open>320 240\<close>, newline, \<open>255\<close>, newline, immediately followed by the \<open>size\<close> payload
  bytes \<open>dump_ppm\<close> was given, in their order.
\<close>

theorem dump_ppm_artifact:
  assumes "ofd \<noteq> -1" and "0 \<le> sz" and "nat sz \<le> length p"
    and "path = c_str (dump_name (ppm_dumpname w) tag)"
    and "\<forall>old. files w path = Some old \<longrightarrow> length old \<le> 48 + nat sz"
  shows "\<exists>w'. dump_ppm p sz tag ofd (48 # sz # rets) w = Return w' \<and>
           files w' path =
             Some (map of_char (''P6\<newline>#'' @ ''9999999999 sec 9999999999 msec '' @ ''\<newline>320 240\<newline>255\<newline>'')
                   @ payload p sz) \<and>
           length ''9999999999 sec 9999999999 msec '' = 31 \<and> length (payload p sz) = nat sz"
  using assms(3) unfolding dump_ppm_complete [OF assms]
  by (simp add: ppm_header_def HRES_STR_def VRES_STR_def payload_def)

theorem dump_ppm_artifact_witness:
  "\<exists>w'. dump_ppm [1, 2, 3] 3 1 3 [48, 3] example_world = Return w' \<and>
     files w' ''fram00000001.ppm'' =
       Some (map of_char ''P6\<newline>#9999999999 sec 9999999999 msec \<newline>320 240\<newline>255\<newline>'' @ [1, 2, 3])"
  using dump_ppm_artifact [where ofd = 3 and sz = 3 and p = "[1, 2, 3]" and path = "''fram00000001.ppm''"
      and w = example_world and tag = 1 and rets = "[]"]
  by (simp add: example_path payload_def) (simp add: example_world_def)

text \<open>
  C4.  The code at a short write.  \<open>dump_ppm\<close> is given a payload of six bytes; the
  header is written in full, the payload's first \<open>write\<close> returns 4 and its second 2.
  The second \<open>write\<close> is handed \<open>p\<close> and \<open>size\<close> again, not the two bytes that are left:
  \<open>dump_ppm\<close> returns, and the file holds the payload's first four bytes followed by its
  first two, not the payload.  When \<open>write\<close> returns 0 instead, \<open>dump_ppm\<close> is still in
  its loop after every one of these calls: nothing ends the process.
\<close>

theorem dump_ppm_short_write:
  "(\<exists>w'. dump_ppm [1, 2, 3, 4, 5, 6] 6 1 3 [48, 4, 2] example_world = Return w' \<and>
      files w' ''fram00000001.ppm'' = Some (map of_char ppm_header @ [1, 2, 3, 4, 1, 2]) \<and>
      files w' ''fram00000001.ppm'' \<noteq> Some (map of_char ppm_header @ [1, 2, 3, 4, 5, 6])) \<and>
   dump_ppm [1, 2, 3, 4, 5, 6] 6 1 3 [48, 4, 0, 0, 0, 0] example_world = Blocked \<and>
   dump_ppm [1, 2, 3, 4, 5, 6] 6 1 3 [48, 0, 0, 0, 0, 0] example_world = Blocked"
proof -
  have "dump_ppm [1, 2, 3, 4, 5, 6] 6 1 3 [48, 4, 0, 0, 0, 0] example_world = Blocked"
    by (simp add: dump_ppm_def Let_def sys_open_creat_def sys_write_def c_int_def)
  moreover have "dump_ppm [1, 2, 3, 4, 5, 6] 6 1 3 [48, 0, 0, 0, 0, 0] example_world = Blocked"
    using dump_ppm_no_progress [where sz = 6 and p = "[1, 2, 3, 4, 5, 6]" and tag = 1 and ofd = 3
        and h = 48 and n = 5 and w = example_world]
    by (simp add: c_int_def replicate_pos)
  ultimately show ?thesis
    using short_write_resends_from_start by auto
qed

text \<open>
  C9.  The code at the first frame (\<open>tag = 1\<close>): the name \<open>dump_ppm\<close> opens is
  \<open>fram00000001.ppm\<close>, which has no directory part.  \<open>snprintf\<close> writes at offset 4 and
  \<open>strncat\<close> at offset 12 of \<open>frames/test00000000.ppm\<close>, the offsets of a name without
  the \<open>frames/\<close> prefix, so the directory and the stem are overwritten.
\<close>

theorem dump_name_first_frame:
  "c_str (dump_name ppm_dumpname_init 1) = ''fram00000001.ppm'' \<and>
   c_str (dump_name ppm_dumpname_init 1) \<noteq> ''frames/test00000001.ppm'' \<and>
   CHR ''/'' \<notin> set (c_str (dump_name ppm_dumpname_init 1))"
  by (simp add: dump_name_def strncat_def snprintf_08d_def store_def fmt_08d_def dec.simps
      digit_def c_str_def NUL_def ppm_dumpname_init_def replicate_pos)

section \<open>Claims on frame processing\<close>

text \<open>
  C10.  Every call of \<open>process_image\<close> adds one to \<open>framecnt\<close> before it looks at the pixel
  format: whatever the format, the call is what its branch does in the world whose counter
  has already advanced, so that the dump of a YUYV or RGB24 frame is made under the new
  count and names its file by it.  A call that returns has added exactly one to the counter.
  A YUYV frame that converts and an RGB24 frame return whenever their dump completes.  When
  the format is neither YUYV nor RGB24 the call returns with the counter advanced and
  nothing else changed, so no file is written.
\<close>

theorem process_image_counts_every_call:
  "process_image p sz ofd wrs w =
     (if pixelformat w = V4L2_PIX_FMT_YUYV then
        (case yuyv_loop p sz 0 0 (bigbuffer w) of
           None \<Rightarrow> Undefined
         | Some bb \<Rightarrow>
             dump_ppm (map bb [0..<nat ((sz * 6) sdiv 4)]) ((sz * 6) sdiv 4) (framecnt w + 1) ofd wrs
               (w\<lparr>framecnt := framecnt w + 1, bigbuffer := bb\<rparr>))
      else if pixelformat w = V4L2_PIX_FMT_RGB24 then
        dump_ppm p sz (framecnt w + 1) ofd wrs (w\<lparr>framecnt := framecnt w + 1\<rparr>)
      else Return (w\<lparr>framecnt := framecnt w + 1\<rparr>)) \<and>
   (\<forall>w'. process_image p sz ofd wrs w = Return w' \<longrightarrow>
      framecnt w' = framecnt w + 1 \<and>
      ppm_dumpname w' =
        (if pixelformat w = V4L2_PIX_FMT_YUYV \<or> pixelformat w = V4L2_PIX_FMT_RGB24
         then dump_name (ppm_dumpname w) (framecnt w + 1) else ppm_dumpname w)) \<and>
   (pixelformat w = V4L2_PIX_FMT_RGB24 \<and> dump_ok sz wrs \<or>
    pixelformat w = V4L2_PIX_FMT_YUYV \<and> 0 \<le> sz \<and> 4 dvd sz \<and> nat sz \<le> length p \<and>
      nat ((sz * 6) sdiv 4) \<le> BIGBUFFER_SIZE \<and> dump_ok ((sz * 6) sdiv 4) wrs \<longrightarrow>
    (\<exists>w'. process_image p sz ofd wrs w = Return w'))"
proof (intro conjI allI impI)
  show eq: "process_image p sz ofd wrs w =
     (if pixelformat w = V4L2_PIX_FMT_YUYV then
        (case yuyv_loop p sz 0 0 (bigbuffer w) of
           None \<Rightarrow> Undefined
         | Some bb \<Rightarrow>
             dump_ppm (map bb [0..<nat ((sz * 6) sdiv 4)]) ((sz * 6) sdiv 4) (framecnt w + 1) ofd wrs
               (w\<lparr>framecnt := framecnt w + 1, bigbuffer := bb\<rparr>))
      else if pixelformat w = V4L2_PIX_FMT_RGB24 then
        dump_ppm p sz (framecnt w + 1) ofd wrs (w\<lparr>framecnt := framecnt w + 1\<rparr>)
      else Return (w\<lparr>framecnt := framecnt w + 1\<rparr>))"
    by (simp add: process_image_def Let_def split: option.splits)
  {
    fix w'
    assume r: "process_image p sz ofd wrs w = Return w'"
    have both: "framecnt w' = framecnt w + 1 \<and>
      ppm_dumpname w' =
        (if pixelformat w = V4L2_PIX_FMT_YUYV \<or> pixelformat w = V4L2_PIX_FMT_RGB24
         then dump_name (ppm_dumpname w) (framecnt w + 1) else ppm_dumpname w)"
    proof (cases "pixelformat w = V4L2_PIX_FMT_YUYV")
      case True
      with r obtain bb where d: "dump_ppm (map bb [0..<nat ((sz * 6) sdiv 4)]) ((sz * 6) sdiv 4) (framecnt w + 1) ofd wrs
               (w\<lparr>framecnt := framecnt w + 1, bigbuffer := bb\<rparr>) = Return w'"
        by (auto simp: process_image_def Let_def split: option.splits)
      from arg_cong [OF dump_ppm_frame [OF d], of framecnt] arg_cong [OF dump_ppm_frame [OF d], of ppm_dumpname]
      show ?thesis
        using True by simp
    next
      case False
      show ?thesis
      proof (cases "pixelformat w = V4L2_PIX_FMT_RGB24")
        case True
        with r False have d: "dump_ppm p sz (framecnt w + 1) ofd wrs (w\<lparr>framecnt := framecnt w + 1\<rparr>) = Return w'"
          by (simp add: process_image_def Let_def)
        from arg_cong [OF dump_ppm_frame [OF d], of framecnt] arg_cong [OF dump_ppm_frame [OF d], of ppm_dumpname]
        show ?thesis
          using True by simp
      next
        case notrgb: False
        with r False show ?thesis by (auto simp: process_image_def Let_def)
      qed
    qed
    from both show "framecnt w' = framecnt w + 1" ..
    from both show "ppm_dumpname w' =
        (if pixelformat w = V4L2_PIX_FMT_YUYV \<or> pixelformat w = V4L2_PIX_FMT_RGB24
         then dump_name (ppm_dumpname w) (framecnt w + 1) else ppm_dumpname w)" ..
  }
  assume ok: "pixelformat w = V4L2_PIX_FMT_RGB24 \<and> dump_ok sz wrs \<or>
    pixelformat w = V4L2_PIX_FMT_YUYV \<and> 0 \<le> sz \<and> 4 dvd sz \<and> nat sz \<le> length p \<and>
      nat ((sz * 6) sdiv 4) \<le> BIGBUFFER_SIZE \<and> dump_ok ((sz * 6) sdiv 4) wrs"
  then show "\<exists>w'. process_image p sz ofd wrs w = Return w'"
  proof
    assume rgb: "pixelformat w = V4L2_PIX_FMT_RGB24 \<and> dump_ok sz wrs"
    then have "dump_ok sz wrs" ..
    from dump_ppm_returns [OF this, of p "framecnt w + 1" ofd "w\<lparr>framecnt := framecnt w + 1\<rparr>"]
    show ?thesis
      using rgb by (auto simp: process_image_def Let_def)
  next
    assume yuyv: "pixelformat w = V4L2_PIX_FMT_YUYV \<and> 0 \<le> sz \<and> 4 dvd sz \<and> nat sz \<le> length p \<and>
      nat ((sz * 6) sdiv 4) \<le> BIGBUFFER_SIZE \<and> dump_ok ((sz * 6) sdiv 4) wrs"
    then have a: "0 \<le> sz" "4 dvd sz" "nat sz \<le> length p" "nat ((sz * 6) sdiv 4) \<le> BIGBUFFER_SIZE"
      and d: "dump_ok ((sz * 6) sdiv 4) wrs" and f: "pixelformat w = V4L2_PIX_FMT_YUYV"
      by simp_all
    from yuyv_loop_converts [OF a, of "bigbuffer w"]
    obtain bb where run: "yuyv_loop p sz 0 0 (bigbuffer w) = Some bb"
      by blast
    from dump_ppm_returns [OF d, of "map bb [0..<nat ((sz * 6) sdiv 4)]" "framecnt w + 1" ofd
        "w\<lparr>framecnt := framecnt w + 1, bigbuffer := bb\<rparr>"]
    show ?thesis
      using f run by (auto simp: process_image_def Let_def)
  qed
qed

theorem process_image_counts_every_call_witness:
  "(\<exists>w'. process_image [16, 128, 235, 128] 4 3 [48, 6] example_world = Return w' \<and>
      framecnt w' = 1 \<and> c_str (ppm_dumpname w') = ''fram00000001.ppm'') \<and>
   (\<exists>w'. process_image [1, 2, 3] 3 3 [48, 3] (example_world\<lparr>pixelformat := V4L2_PIX_FMT_RGB24\<rparr>) = Return w' \<and>
      framecnt w' = 1 \<and> c_str (ppm_dumpname w') = ''fram00000001.ppm'') \<and>
   process_image [1, 2, 3] 3 3 [] (example_world\<lparr>pixelformat := V4L2_PIX_FMT_OTHER 0\<rparr>) =
     Return (example_world\<lparr>pixelformat := V4L2_PIX_FMT_OTHER 0, framecnt := 1\<rparr>)"
proof -
  have ok: "dump_ok ((4 * 6) sdiv 4) [48, 6]" "dump_ok 3 [48, 3]"
    by (simp_all add: dump_ok_def reaches_def c_int_def signed_divide_int_def)
  let ?rgb = "example_world\<lparr>pixelformat := V4L2_PIX_FMT_RGB24\<rparr>"
  let ?other = "example_world\<lparr>pixelformat := V4L2_PIX_FMT_OTHER 0\<rparr>"
  note yuyv_call = process_image_counts_every_call [where p = "[16, 128, 235, 128]" and sz = 4
      and ofd = 3 and wrs = "[48, 6]" and w = example_world]
  note rgb_call = process_image_counts_every_call [where p = "[1, 2, 3]" and sz = 3
      and ofd = 3 and wrs = "[48, 3]" and w = ?rgb]
  note other_call = process_image_counts_every_call [where p = "[1, 2, 3]" and sz = 3
      and ofd = 3 and wrs = "[]" and w = ?other]
  have "pixelformat example_world = V4L2_PIX_FMT_YUYV \<and> 0 \<le> (4 :: int) \<and> (4 :: int) dvd 4 \<and>
      nat 4 \<le> length [16, 128, 235, 128 :: byte] \<and> nat ((4 * 6) sdiv 4) \<le> BIGBUFFER_SIZE \<and>
      dump_ok ((4 * 6) sdiv 4) [48, 6]"
    using ok(1) by (simp add: example_world_def BIGBUFFER_SIZE_def signed_divide_int_def)
  with yuyv_call obtain w1 where r1: "process_image [16, 128, 235, 128] 4 3 [48, 6] example_world = Return w1"
    by blast
  from yuyv_call r1 have "framecnt w1 = framecnt example_world + 1 \<and>
      ppm_dumpname w1 = dump_name (ppm_dumpname example_world) (framecnt example_world + 1)"
    by (simp add: example_world_def)
  then have yuyv: "framecnt w1 = 1 \<and> c_str (ppm_dumpname w1) = ''fram00000001.ppm''"
    using example_name by (simp add: example_world_def)
  have "pixelformat ?rgb = V4L2_PIX_FMT_RGB24 \<and> dump_ok 3 [48, 3]"
    using ok(2) by simp
  with rgb_call obtain w2 where r2: "process_image [1, 2, 3] 3 3 [48, 3] ?rgb = Return w2"
    by blast
  from rgb_call r2 have "framecnt w2 = framecnt ?rgb + 1 \<and>
      ppm_dumpname w2 = dump_name (ppm_dumpname ?rgb) (framecnt ?rgb + 1)"
    by simp
  then have rgb: "framecnt w2 = 1 \<and> c_str (ppm_dumpname w2) = ''fram00000001.ppm''"
    using example_name by (simp add: example_world_def)
  from other_call
  have other: "process_image [1, 2, 3] 3 3 [] ?other =
     Return (example_world\<lparr>pixelformat := V4L2_PIX_FMT_OTHER 0, framecnt := 1\<rparr>)"
    by (simp add: example_world_def)
  from r1 yuyv r2 rgb other show ?thesis by blast
qed

section \<open>Claims on the acquisition loop\<close>

text \<open>
  C5.  Take any run of the loop whose turns are interrupted turns, not-ready turns and
  frame turns, in any order and number, with at least \<open>count\<close> frame turns among them.
  Then \<open>mainloop\<close>'s loop returns; the turns it used hold exactly \<open>count\<close> frame turns,
  and \<open>framecnt\<close> has advanced by exactly \<open>count\<close>.  (\<open>mainloop\<close> starts the loop with
  \<open>count = frame_count\<close>.)
\<close>

theorem mainloop_exact_frames:
  assumes "\<forall>it \<in> set its. interrupted it \<or> not_ready it \<or> frame_ready (n_buffers w) (pixelformat w) it"
    and "unat count \<le> length (filter (frame_ready (n_buffers w) (pixelformat w)) its)"
  shows "\<exists>used rest w'. its = used @ rest \<and>
           mainloop_while count its w = Return (rest, w') \<and>
           length (filter (frame_ready (n_buffers w) (pixelformat w)) used) = unat count \<and>
           framecnt w' = framecnt w + count"
  using assms
proof (induction "unat count" arbitrary: count its w)
  case 0
  then have "count = 0" by (simp add: unat_eq_0)
  then have "mainloop_while count its w = Return (its, w)"
    by (subst mainloop_while.simps) simp
  with \<open>count = 0\<close> have "its = [] @ its \<and> mainloop_while count its w = Return (its, w) \<and>
      length (filter (frame_ready (n_buffers w) (pixelformat w)) []) = unat count \<and>
      framecnt w = framecnt w + count"
    by simp
  then show ?case by blast
next
  case (Suc n)
  let ?P = "frame_ready (n_buffers w) (pixelformat w)"
  have pos: "0 < count"
  proof (rule ccontr)
    assume "\<not> 0 < count"
    then have "count = 0" by (simp add: word_gt_0)
    with Suc.hyps(2) show False by simp
  qed
  from Suc.hyps(2) Suc.prems(2) have "filter ?P its \<noteq> []" by auto
  then have ex: "\<exists>it \<in> set its. ?P it"
    by (metis filter_False)
  from mainloop_for_frame [OF pos Suc.prems(1) ex]
  obtain pre f rest w1 where its: "its = pre @ f # rest"
    and pre: "\<forall>it \<in> set pre. \<not> ?P it" and f: "?P f"
    and run: "mainloop_for count its w = Return (count - 1, rest, w1)"
    and k: "framecnt w1 = framecnt w + 1" "n_buffers w1 = n_buffers w" "pixelformat w1 = pixelformat w"
    by blast
  have step: "mainloop_while count its w = mainloop_while (count - 1) rest w1"
    by (rule mainloop_while_step [OF pos run])
  have n: "n = unat (count - 1)"
    using Suc.hyps(2) unat_pred [OF pos] by simp
  have fpre: "filter ?P pre = []"
    using pre by simp
  have a: "\<forall>it \<in> set rest. interrupted it \<or> not_ready it \<or> frame_ready (n_buffers w1) (pixelformat w1) it"
    using Suc.prems(1) its k by simp
  have b: "unat (count - 1) \<le> length (filter (frame_ready (n_buffers w1) (pixelformat w1)) rest)"
    using Suc.prems(2) its f fpre k n Suc.hyps(2) by simp
  from Suc.hyps(1) [OF n a b]
  obtain used rest' w' where r: "rest = used @ rest'"
    "mainloop_while (count - 1) rest w1 = Return (rest', w')"
    "length (filter ?P used) = unat (count - 1)"
    "framecnt w' = framecnt w1 + (count - 1)"
    using k by auto
  show ?case
  proof (rule exI [of _ "pre @ f # used"], rule exI [of _ rest'], rule exI [of _ w'], intro conjI)
    show "its = (pre @ f # used) @ rest'" using its r(1) by simp
    show "mainloop_while count its w = Return (rest', w')" using step r(2) by simp
    show "length (filter ?P (pre @ f # used)) = unat count"
      using fpre f r(3) n Suc.hyps(2) by simp
    show "framecnt w' = framecnt w + count" using r(4) k(1) by simp
  qed
qed

theorem mainloop_exact_frames_witness:
  "\<exists>used rest w'.
      [example_interrupt, example_again, example_frame, example_again, example_frame, example_again] = used @ rest \<and>
      mainloop_while 2 [example_interrupt, example_again, example_frame, example_again, example_frame, example_again]
        example_world = Return (rest, w') \<and>
      length (filter (frame_ready 6 V4L2_PIX_FMT_YUYV) used) = 2 \<and> framecnt w' = 2"
  using mainloop_exact_frames [where count = 2 and w = example_world
      and its = "[example_interrupt, example_again, example_frame, example_again, example_frame, example_again]"]
  by (simp add: example_classes) (simp add: example_world_def example_classes)

text \<open>
  C6.  Inside the loop (\<open>count > 0\<close>), after \<open>select\<close> reported a ready descriptor: when
  the dequeue ends with \<open>EAGAIN\<close> or \<open>EIO\<close>, \<open>read_frame\<close> returns 0 and leaves the world
  as it is (no frame is emitted), and the loop goes on to the next turn with the same
  \<open>count\<close>; when it ends with any other error the process exits with \<open>EXIT_FAILURE\<close>
  after the diagnostic of \<open>errno_exit("VIDIOC_DQBUF")\<close>.
\<close>

theorem dequeue_outcomes:
  assumes "0 < count"
    and "fst (select_ret it1) \<noteq> -1" and "fst (select_ret it1) \<noteq> 0"
    and "fst (select_ret it2) \<noteq> -1" and "fst (select_ret it2) \<noteq> 0"
  shows "(xioctl (dqbuf_rets it1) = Some (-1, EAGAIN) \<or> xioctl (dqbuf_rets it1) = Some (-1, EIO) \<longrightarrow>
            read_frame it1 w = Return (0, w) \<and>
            mainloop_while count (it1 # its) w =
              mainloop_while count its (w\<lparr>calls := calls w @ [Call_select 2 0]\<rparr>)) \<and>
         (xioctl (dqbuf_rets it2) = Some (-1, e) \<and> e \<noteq> EAGAIN \<and> e \<noteq> EIO \<longrightarrow>
            mainloop_while count (it2 # its) w =
              Exit EXIT_FAILURE
                (w\<lparr>calls := calls w @ [Call_select 2 0],
                   stderr := stderr w @ [Errno_exit ''VIDIOC_DQBUF'' e]\<rparr>)) \<and>
         EXIT_FAILURE \<noteq> 0"
proof (intro conjI impI)
  assume a: "xioctl (dqbuf_rets it1) = Some (-1, EAGAIN) \<or> xioctl (dqbuf_rets it1) = Some (-1, EIO)"
  then show "read_frame it1 w = Return (0, w)"
    by (auto simp: read_frame_def)
  from a have "read_frame it1 (w\<lparr>calls := calls w @ [Call_select 2 0]\<rparr>) = Return (0, w\<lparr>calls := calls w @ [Call_select 2 0]\<rparr>)"
    by (auto simp: read_frame_def)
  moreover have "\<not> count \<le> 0"
    using assms(1) by (simp add: not_le)
  ultimately have "mainloop_for count (it1 # its) w = mainloop_for count its (w\<lparr>calls := calls w @ [Call_select 2 0]\<rparr>)"
    using assms(2,3) by (simp add: Let_def)
  then show "mainloop_while count (it1 # its) w =
              mainloop_while count its (w\<lparr>calls := calls w @ [Call_select 2 0]\<rparr>)"
    using assms(1) by (subst mainloop_while.simps, subst (2) mainloop_while.simps) simp
next
  assume a: "xioctl (dqbuf_rets it2) = Some (-1, e) \<and> e \<noteq> EAGAIN \<and> e \<noteq> EIO"
  then have "read_frame it2 (w\<lparr>calls := calls w @ [Call_select 2 0]\<rparr>) =
      Exit EXIT_FAILURE (w\<lparr>calls := calls w @ [Call_select 2 0], stderr := stderr w @ [Errno_exit ''VIDIOC_DQBUF'' e]\<rparr>)"
    by (cases e) (auto simp: read_frame_def errno_exit_def)
  then have "mainloop_for count (it2 # its) w = Exit EXIT_FAILURE
                (w\<lparr>calls := calls w @ [Call_select 2 0],
                   stderr := stderr w @ [Errno_exit ''VIDIOC_DQBUF'' e]\<rparr>)"
    using assms by (simp add: Let_def)
  from mainloop_while_fails [OF assms(1) this] show "mainloop_while count (it2 # its) w = Exit EXIT_FAILURE
                (w\<lparr>calls := calls w @ [Call_select 2 0],
                   stderr := stderr w @ [Errno_exit ''VIDIOC_DQBUF'' e]\<rparr>)" .
next
  show "EXIT_FAILURE \<noteq> 0" by (simp add: EXIT_FAILURE_def)
qed

theorem dequeue_outcomes_witness:
  "read_frame example_again example_world = Return (0, example_world) \<and>
   mainloop_while 2 [example_again, example_frame] example_world =
     mainloop_while 2 [example_frame] (example_world\<lparr>calls := [Call_select 2 0]\<rparr>) \<and>
   mainloop_while 2 [example_frame\<lparr>dqbuf_rets := [(-1, Errno 19)]\<rparr>, example_frame] example_world =
     Exit 1 (example_world\<lparr>calls := [Call_select 2 0], stderr := [Errno_exit ''VIDIOC_DQBUF'' (Errno 19)]\<rparr>)"
  using dequeue_outcomes [where count = 2 and ?it1.0 = example_again
      and ?it2.0 = "example_frame\<lparr>dqbuf_rets := [(-1, Errno 19)]\<rparr>" and e = "Errno 19"
      and its = "[example_frame]" and w = example_world]
  by (simp add: example_again_def example_frame_def EXIT_FAILURE_def) (simp add: example_world_def)

text \<open>
  C7.  Inside the loop (\<open>count > 0\<close>) every turn calls \<open>select\<close> with the timeout of 2
  seconds.  When \<open>select\<close> fails with \<open>EINTR\<close> the loop goes on to the next turn with
  the same \<open>count\<close> and nothing changed but the log of calls; when it fails with another
  error the process exits with \<open>EXIT_FAILURE\<close> after the diagnostic of
  \<open>errno_exit("select")\<close>; when it returns 0 the process exits with \<open>EXIT_FAILURE\<close> after
  the message \<open>select timeout\<close>.  In both exits the files and \<open>framecnt\<close> are those from
  before the turn: no further frame is written.
\<close>

theorem readiness_wait_outcomes:
  assumes "0 < count"
  shows "(select_ret it1 = (-1, EINTR) \<longrightarrow>
            mainloop_while count (it1 # its) w =
              mainloop_while count its (w\<lparr>calls := calls w @ [Call_select 2 0]\<rparr>)) \<and>
         (fst (select_ret it2) = -1 \<and> snd (select_ret it2) \<noteq> EINTR \<longrightarrow>
            mainloop_while count (it2 # its) w =
              Exit EXIT_FAILURE
                (w\<lparr>calls := calls w @ [Call_select 2 0],
                   stderr := stderr w @ [Errno_exit ''select'' (snd (select_ret it2))]\<rparr>)) \<and>
         (fst (select_ret it3) = 0 \<longrightarrow>
            mainloop_while count (it3 # its) w =
              Exit EXIT_FAILURE
                (w\<lparr>calls := calls w @ [Call_select 2 0],
                   stderr := stderr w @ [Message ''select timeout'']\<rparr>)) \<and>
         EXIT_FAILURE \<noteq> 0"
proof (intro conjI impI)
  assume "select_ret it1 = (-1, EINTR)"
  then have "mainloop_for count (it1 # its) w = mainloop_for count its (w\<lparr>calls := calls w @ [Call_select 2 0]\<rparr>)"
    by (simp add: Let_def)
  then show "mainloop_while count (it1 # its) w =
              mainloop_while count its (w\<lparr>calls := calls w @ [Call_select 2 0]\<rparr>)"
    using assms by (subst mainloop_while.simps, subst (2) mainloop_while.simps) simp
next
  assume "fst (select_ret it2) = -1 \<and> snd (select_ret it2) \<noteq> EINTR"
  then have "mainloop_for count (it2 # its) w = Exit EXIT_FAILURE
                (w\<lparr>calls := calls w @ [Call_select 2 0],
                   stderr := stderr w @ [Errno_exit ''select'' (snd (select_ret it2))]\<rparr>)"
    by (simp add: Let_def errno_exit_def)
  from mainloop_while_fails [OF assms this] show "mainloop_while count (it2 # its) w = Exit EXIT_FAILURE
                (w\<lparr>calls := calls w @ [Call_select 2 0],
                   stderr := stderr w @ [Errno_exit ''select'' (snd (select_ret it2))]\<rparr>)" .
next
  assume "fst (select_ret it3) = 0"
  then have "mainloop_for count (it3 # its) w = Exit EXIT_FAILURE
                (w\<lparr>calls := calls w @ [Call_select 2 0],
                   stderr := stderr w @ [Message ''select timeout'']\<rparr>)"
    by (simp add: Let_def)
  from mainloop_while_fails [OF assms this] show "mainloop_while count (it3 # its) w = Exit EXIT_FAILURE
                (w\<lparr>calls := calls w @ [Call_select 2 0],
                   stderr := stderr w @ [Message ''select timeout'']\<rparr>)" .
next
  show "EXIT_FAILURE \<noteq> 0" by (simp add: EXIT_FAILURE_def)
qed

theorem readiness_wait_outcomes_witness:
  "mainloop_while 2 [example_interrupt, example_frame] example_world =
     mainloop_while 2 [example_frame] (example_world\<lparr>calls := [Call_select 2 0]\<rparr>) \<and>
   mainloop_while 2 [example_frame\<lparr>select_ret := (-1, EIO)\<rparr>, example_frame] example_world =
     Exit 1 (example_world\<lparr>calls := [Call_select 2 0], stderr := [Errno_exit ''select'' EIO]\<rparr>) \<and>
   mainloop_while 2 [example_frame\<lparr>select_ret := (0, EINTR)\<rparr>, example_frame] example_world =
     Exit 1 (example_world\<lparr>calls := [Call_select 2 0], stderr := [Message ''select timeout'']\<rparr>)"
  using readiness_wait_outcomes [where count = 2 and ?it1.0 = example_interrupt
      and ?it2.0 = "example_frame\<lparr>select_ret := (-1, EIO)\<rparr>"
      and ?it3.0 = "example_frame\<lparr>select_ret := (0, EINTR)\<rparr>"
      and its = "[example_frame]" and w = example_world]
  by (simp add: example_interrupt_def example_frame_def EXIT_FAILURE_def) (simp add: example_world_def)

section \<open>Claims on the buffer pool\<close>

text \<open>
  C8.  \<open>init_mmap\<close> asks for 6 buffers.  It exits with \<open>EXIT_FAILURE\<close> and a message when
  the request is rejected with \<open>EINVAL\<close> (no memory mapping), and when the request
  succeeds but fewer than 2 buffers are granted.  When buffers are granted and \<open>mmap\<close>
  fails for one of them, any earlier ones having been mapped, it exits with
  \<open>EXIT_FAILURE\<close> after the diagnostic of \<open>errno_exit("mmap")\<close>.
\<close>

theorem init_mmap_failures:
  "(xioctl (reqbufs_rets sc1) = Some (-1, EINVAL) \<longrightarrow>
      init_mmap sc1 w =
        Exit EXIT_FAILURE
          (w\<lparr>calls := calls w @ [Call_reqbufs 6],
             stderr := stderr w @ [Message (dev_name w @ '' does not support memory mapping'')]\<rparr>)) \<and>
   (ioctl_ok (reqbufs_rets sc2) \<and> granted sc2 < 2 \<longrightarrow>
      init_mmap sc2 w =
        Exit EXIT_FAILURE
          (w\<lparr>calls := calls w @ [Call_reqbufs 6],
             stderr := stderr w @ [Message (''Insufficient buffer memory on '' @ dev_name w)]\<rparr>)) \<and>
   (ioctl_ok (reqbufs_rets sc3) \<and> 2 \<le> granted sc3 \<and> calloc_ok sc3 \<and>
    per_buffer sc3 = good @ bad # rest \<and> length good < unat (granted sc3) \<and>
    (\<forall>b \<in> set good. ioctl_ok (querybuf_rets b) \<and> fst (mmap_ret b) \<noteq> MAP_FAILED) \<and>
    ioctl_ok (querybuf_rets bad) \<and> fst (mmap_ret bad) = MAP_FAILED \<longrightarrow>
      (\<exists>w'. init_mmap sc3 w = Exit EXIT_FAILURE w' \<and>
             stderr w' = stderr w @ [Errno_exit ''mmap'' (snd (mmap_ret bad))])) \<and>
   EXIT_FAILURE \<noteq> 0"
proof (intro conjI impI)
  assume "xioctl (reqbufs_rets sc1) = Some (-1, EINVAL)"
  then show "init_mmap sc1 w =
        Exit EXIT_FAILURE
          (w\<lparr>calls := calls w @ [Call_reqbufs 6],
             stderr := stderr w @ [Message (dev_name w @ '' does not support memory mapping'')]\<rparr>)"
    by (simp add: init_mmap_def Let_def)
next
  assume "ioctl_ok (reqbufs_rets sc2) \<and> granted sc2 < 2"
  then show "init_mmap sc2 w =
        Exit EXIT_FAILURE
          (w\<lparr>calls := calls w @ [Call_reqbufs 6],
             stderr := stderr w @ [Message (''Insufficient buffer memory on '' @ dev_name w)]\<rparr>)"
    by (auto simp: init_mmap_def Let_def ioctl_ok_def split: option.splits)
next
  assume a: "ioctl_ok (reqbufs_rets sc3) \<and> 2 \<le> granted sc3 \<and> calloc_ok sc3 \<and>
    per_buffer sc3 = good @ bad # rest \<and> length good < unat (granted sc3) \<and>
    (\<forall>b \<in> set good. ioctl_ok (querybuf_rets b) \<and> fst (mmap_ret b) \<noteq> MAP_FAILED) \<and>
    ioctl_ok (querybuf_rets bad) \<and> fst (mmap_ret bad) = MAP_FAILED"
  let ?w = "w\<lparr>calls := calls w @ [Call_reqbufs 6],
              buffers := replicate (unat (granted sc3)) (0, 0), n_buffers := 0\<rparr>"
  from a obtain r e where q: "xioctl (reqbufs_rets sc3) = Some (r, e)" "r \<noteq> -1"
    by (auto simp: ioctl_ok_def split: option.splits)
  from a have "\<not> granted sc3 < 2" by (simp add: not_less)
  with a q have run: "init_mmap sc3 w = init_mmap_loop (granted sc3) (good @ bad # rest) ?w"
    by (simp add: init_mmap_def Let_def)
  have "\<forall>b \<in> set good. ioctl_ok (querybuf_rets b) \<and> fst (mmap_ret b) \<noteq> MAP_FAILED"
    and "unat (n_buffers ?w) + length good < unat (granted sc3)"
    and "length (buffers ?w) = unat (granted sc3)"
    and "ioctl_ok (querybuf_rets bad)" and "fst (mmap_ret bad) = MAP_FAILED"
    using a by simp_all
  from init_mmap_loop_mmap_fails [OF this, of rest] run
  show "\<exists>w'. init_mmap sc3 w = Exit EXIT_FAILURE w' \<and>
             stderr w' = stderr w @ [Errno_exit ''mmap'' (snd (mmap_ret bad))]"
    by simp
next
  show "EXIT_FAILURE \<noteq> 0" by (simp add: EXIT_FAILURE_def)
qed

theorem init_mmap_failures_witness:
  "init_mmap (example_init\<lparr>reqbufs_rets := [(-1, EINVAL)]\<rparr>) example_world =
     Exit 1 (example_world\<lparr>calls := [Call_reqbufs 6],
        stderr := [Message ''/dev/video0 does not support memory mapping'']\<rparr>) \<and>
   init_mmap (example_init\<lparr>granted := 1\<rparr>) example_world =
     Exit 1 (example_world\<lparr>calls := [Call_reqbufs 6],
        stderr := [Message ''Insufficient buffer memory on /dev/video0'']\<rparr>) \<and>
   (\<exists>w'. init_mmap example_init example_world = Exit 1 w' \<and> stderr w' = [Errno_exit ''mmap'' (Errno 12)])"
  using init_mmap_failures [where ?sc1.0 = "example_init\<lparr>reqbufs_rets := [(-1, EINVAL)]\<rparr>"
      and ?sc2.0 = "example_init\<lparr>granted := 1\<rparr>" and ?sc3.0 = example_init and w = example_world
      and good = "[example_buffer]" and bad = "example_buffer\<lparr>mmap_ret := (-1, Errno 12)\<rparr>"
      and rest = "[example_buffer]"]
  by (simp add: example_init_def example_buffer_def ioctl_ok_def MAP_FAILED_def EXIT_FAILURE_def)
     (simp add: example_world_def)

end
